theory Spec2Isabelle
  imports Complex_Main
begin

section \<open>Commutation DAG of a quantum circuit (transforms/get_dag_commutation.py)\<close>

text \<open>
  A shallow embedding of the pairwise commutation test \<open>is_commuting\<close>, of the lookup
  table it consults, and of the incremental DAG builder \<open>CommutationDAG\<close>.

  Conventions of the embedding.
  \<^item> A Python exception is a value \<open>Inl e\<close> of the sum type \<open>error + 'a\<close>.
  \<^item> A binary64 number is the real number it stands for, and every arithmetic operation that
    rounds is followed by the rounding \<open>fl\<close> to the nearest binary64 number. Infinities and
    NaN are not modelled.
  \<^item> An operation is the record of the attributes the module reads from it.
\<close>

subsection \<open>Errors and containers\<close>

datatype error =
    QuantumFunctionError string
  | KeyError
  | IndexError
  | AttributeError
  | TypeError

text \<open>\<open>d[k]\<close> on a dict given as an association list, and \<open>xs[i]\<close> on a list, with \<open>i\<close> never
  negative where the module indexes.\<close>

definition dict_get :: "('k \<times> 'v) list \<Rightarrow> 'k \<Rightarrow> error + 'v" where
  "dict_get d k = (case map_of d k of None \<Rightarrow> Inl KeyError | Some v \<Rightarrow> Inr v)"

definition list_get :: "'a list \<Rightarrow> nat \<Rightarrow> error + 'a" where
  "list_get xs i = (if i < length xs then Inr (xs ! i) else Inl IndexError)"

subsection \<open>Operations\<close>

text \<open>Wire labels are integers or strings.\<close>

datatype label = IntLabel int | StrLabel string

text \<open>
  A parameter of an operation is a float, or a value with complex entries (the matrix of a
  \<open>QubitUnitary\<close>, the state of a \<open>QubitStateVector\<close>), whose entries the module never reads:
  \<open>np.mod\<close> raises \<open>TypeError\<close> on it. A real array stands for the floats it holds. Parameter
  lists that \<open>np.mod\<close> cannot make one array, their entries having different shapes, are not
  modelled.
\<close>

datatype param = is_float: FloatParam (float_value: real) | ComplexParam

text \<open>
  The attributes of an operation that the module reads: \<open>name\<close>, \<open>wires\<close> (the attribute
  \<open>_wires\<close>), \<open>data\<close> (the parameters), \<open>is_controlled\<close> (\<open>None\<close>, or the name of the
  controlled base operation), and the two \<open>isinstance\<close> tests against \<open>CVOperation\<close> and
  \<open>Channel\<close>. An operation built by \<open>Controlled\<close> (ops/math/control.py) keeps its control wires
  and the wires of its base operation apart from \<open>_wires\<close>: \<open>controlled\<close> holds the two.
\<close>

record operation =
  name :: string
  wires :: "label list"
  controlled :: "(label list \<times> label list) option"
  data :: "param list"
  is_controlled :: "string option"
  is_cv :: bool
  is_channel :: bool

text \<open>Modelled from the spec: the class \<open>Operator\<close> is missing from the sources. For an
  operation that \<open>Controlled\<close> did not build, the control and the target wires are both its
  wires.\<close>

definition control_wires :: "operation \<Rightarrow> label list" where
  "control_wires operation =
     (case controlled operation of Some (c, t) \<Rightarrow> c | None \<Rightarrow> wires operation)"

definition target_wires :: "operation \<Rightarrow> label list" where
  "target_wires operation =
     (case controlled operation of Some (c, t) \<Rightarrow> t | None \<Rightarrow> wires operation)"

text \<open>Modelled from the spec: the constructors \<open>qml.RX\<close>, \<open>qml.RY\<close>, \<open>qml.RZ\<close>, \<open>qml.Hadamard\<close> are
  missing from the sources. They build an operation that is not controlled, and neither a
  continuous-variable operation nor a channel.\<close>

definition uncontrolled_op :: "string \<Rightarrow> param list \<Rightarrow> label list \<Rightarrow> operation" where
  "uncontrolled_op n ps ws =
     \<lparr>name = n, wires = ws, controlled = None, data = ps,
      is_controlled = None, is_cv = False, is_channel = False\<rparr>"

text \<open>Modelled from the spec: the constructors \<open>qml.CRX\<close>, \<open>qml.CRY\<close>, \<open>qml.CRZ\<close> are missing from
  the sources. They are built on the wires of a \<open>CRot\<close> and keep its control/target partition;
  \<open>is_controlled\<close> names the base rotation.\<close>

definition controlled_op :: "string \<Rightarrow> string \<Rightarrow> param list \<Rightarrow> operation \<Rightarrow> operation" where
  "controlled_op n base ps crot =
     \<lparr>name = n, wires = wires crot, controlled = controlled crot, data = ps,
      is_controlled = Some base, is_cv = False, is_channel = False\<rparr>"

text \<open>Modelled from the spec: \<open>qml.ctrl\<close> is missing from the sources. \<open>qml.ctrl(Hadamard,
  control=c)(wires=t)\<close> is an operation without parameters on the wires \<open>c + t\<close>, of kind
  \<open>ControlledOperation\<close>.\<close>

definition ctrl_hadamard :: "label list \<Rightarrow> label list \<Rightarrow> operation" where
  "ctrl_hadamard c t =
     \<lparr>name = ''ControlledOperation'', wires = c @ t, controlled = Some (c, t),
      data = [], is_controlled = None, is_cv = False, is_channel = False\<rparr>"

subsection \<open>The lookup table\<close>

definition position :: "(string \<times> nat) list" where
  "position =
    [(''Hadamard'', 0),
     (''PauliX'', 1),
     (''PauliY'', 2),
     (''PauliZ'', 3),
     (''SWAP'', 4),
     (''ctrl'', 5),
     (''S'', 6),
     (''T'', 7),
     (''SX'', 8),
     (''ISWAP'', 9),
     (''SISWAP'', 10),
     (''Barrier'', 11),
     (''WireCut'', 12),
     (''RX'', 13),
     (''RY'', 14),
     (''RZ'', 15),
     (''PhaseShift'', 16),
     (''Rot'', 17),
     (''MultiRZ'', 18),
     (''Identity'', 19),
     (''U1'', 20),
     (''U2'', 21),
     (''U3'', 22),
     (''IsingXX'', 23),
     (''IsingYY'', 24),
     (''IsingZZ'', 25),
     (''QubitStateVector'', 26),
     (''BasisState'', 27)]"

definition commutation_map :: "(string \<times> nat list) list" where
  "commutation_map =
    [(''Hadamard'',
       [1, 0, 0, 0, 0, 0, 0, 0, 0, 0, 0, 0, 0, 0, 0, 0, 0, 0, 0, 1, 0, 0, 0, 0, 0, 0, 0, 0]),
     (''PauliX'',
       [0, 1, 0, 0, 0, 0, 0, 0, 1, 0, 0, 0, 0, 1, 0, 0, 0, 0, 0, 1, 0, 0, 0, 1, 0, 0, 0, 0]),
     (''PauliY'',
       [0, 0, 1, 0, 0, 0, 0, 0, 0, 0, 0, 0, 0, 0, 1, 0, 0, 0, 0, 1, 0, 0, 0, 0, 1, 0, 0, 0]),
     (''PauliZ'',
       [0, 0, 0, 1, 0, 1, 1, 1, 0, 0, 0, 0, 0, 0, 0, 1, 1, 0, 1, 1, 1, 0, 0, 0, 0, 1, 0, 0]),
     (''SWAP'',
       [0, 0, 0, 0, 1, 0, 0, 0, 0, 1, 1, 0, 0, 0, 0, 0, 0, 0, 0, 1, 0, 0, 0, 0, 0, 0, 0, 0]),
     (''ctrl'',
       [0, 0, 0, 1, 0, 1, 1, 1, 0, 0, 0, 0, 0, 0, 0, 1, 1, 0, 1, 1, 1, 0, 0, 0, 0, 1, 0, 0]),
     (''S'',
       [0, 0, 0, 1, 0, 1, 1, 1, 0, 0, 0, 0, 0, 0, 0, 1, 1, 0, 1, 1, 1, 0, 0, 0, 0, 1, 0, 0]),
     (''T'',
       [0, 0, 0, 1, 0, 1, 1, 1, 0, 0, 0, 0, 0, 0, 0, 1, 1, 0, 1, 1, 1, 0, 0, 0, 0, 1, 0, 0]),
     (''SX'',
       [0, 1, 0, 0, 0, 0, 0, 0, 1, 0, 0, 0, 0, 0, 0, 1, 1, 0, 1, 1, 1, 0, 0, 0, 0, 1, 0, 0]),
     (''ISWAP'',
       [0, 0, 0, 0, 1, 0, 0, 0, 0, 1, 1, 0, 0, 0, 0, 0, 0, 0, 0, 1, 0, 0, 0, 0, 0, 0, 0, 0]),
     (''SISWAP'',
       [0, 0, 0, 0, 1, 0, 0, 0, 0, 1, 1, 0, 0, 0, 0, 0, 0, 0, 0, 1, 0, 0, 0, 0, 0, 0, 0, 0]),
     (''Barrier'',
       [0, 0, 0, 0, 0, 0, 0, 0, 0, 0, 0, 0, 0, 0, 0, 0, 0, 0, 0, 0, 0, 0, 0, 0, 0, 0, 0, 0]),
     (''WireCut'',
       [0, 0, 0, 0, 0, 0, 0, 0, 0, 0, 0, 0, 0, 0, 0, 0, 0, 0, 0, 0, 0, 0, 0, 0, 0, 0, 0, 0]),
     (''RX'',
       [0, 1, 0, 0, 0, 0, 0, 0, 1, 0, 0, 0, 0, 1, 0, 0, 0, 0, 0, 1, 0, 0, 0, 1, 0, 0, 0, 0]),
     (''RY'',
       [0, 0, 1, 0, 0, 0, 0, 0, 0, 0, 0, 0, 0, 0, 1, 0, 0, 0, 0, 1, 0, 0, 0, 0, 1, 0, 0, 0]),
     (''RZ'',
       [0, 0, 0, 1, 0, 1, 1, 1, 0, 0, 0, 0, 0, 0, 0, 1, 1, 0, 1, 1, 1, 0, 0, 0, 0, 1, 0, 0]),
     (''PhaseShift'',
       [0, 0, 0, 1, 0, 1, 1, 1, 0, 0, 0, 0, 0, 0, 0, 1, 1, 0, 1, 1, 1, 0, 0, 0, 0, 1, 0, 0]),
     (''Rot'',
       [0, 0, 0, 0, 0, 0, 0, 0, 0, 0, 0, 0, 0, 0, 0, 0, 0, 0, 0, 1, 0, 0, 0, 0, 0, 0, 0, 0]),
     (''MultiRZ'',
       [0, 0, 0, 1, 0, 1, 1, 1, 0, 0, 0, 0, 0, 0, 0, 1, 1, 0, 1, 1, 1, 0, 0, 0, 0, 1, 0, 0]),
     (''Identity'',
       [1, 1, 1, 1, 1, 1, 1, 1, 1, 1, 1, 0, 0, 1, 1, 1, 1, 1, 1, 1, 1, 1, 1, 1, 1, 1, 0, 0]),
     (''U1'',
       [0, 0, 0, 1, 0, 1, 1, 1, 0, 0, 0, 0, 0, 0, 0, 1, 1, 0, 1, 1, 1, 0, 0, 0, 0, 1, 0, 0]),
     (''U2'',
       [0, 0, 0, 0, 0, 0, 0, 0, 0, 0, 0, 0, 0, 0, 0, 0, 0, 0, 0, 1, 0, 0, 0, 0, 0, 0, 0, 0]),
     (''U3'',
       [0, 0, 0, 0, 0, 0, 0, 0, 0, 0, 0, 0, 0, 0, 0, 0, 0, 0, 0, 1, 0, 0, 0, 0, 0, 0, 0, 0]),
     (''IsingXX'',
       [0, 1, 0, 0, 0, 0, 0, 0, 1, 0, 0, 0, 0, 1, 0, 0, 0, 0, 0, 1, 0, 0, 0, 1, 0, 0, 0, 0]),
     (''IsingYY'',
       [0, 0, 1, 0, 0, 0, 0, 0, 0, 0, 0, 0, 0, 0, 1, 0, 0, 0, 0, 1, 0, 0, 0, 0, 1, 0, 0, 0]),
     (''IsingZZ'',
       [0, 0, 0, 1, 0, 1, 1, 1, 0, 0, 0, 0, 0, 0, 0, 1, 1, 0, 1, 1, 1, 0, 0, 0, 0, 1, 0, 0]),
     (''QubitStateVector'',
       [0, 0, 0, 0, 0, 0, 0, 0, 0, 0, 0, 0, 0, 0, 0, 0, 0, 0, 0, 0, 0, 0, 0, 0, 0, 0, 0, 0]),
     (''BasisState'',
       [0, 0, 0, 0, 0, 0, 0, 0, 0, 0, 0, 0, 0, 0, 0, 0, 0, 0, 0, 0, 0, 0, 0, 0, 0, 0, 0, 0])]"

text \<open>\<open>commutation_map[k1][position[k2]]\<close>, before the conversion to \<open>bool\<close>.\<close>

definition table_entry :: "string \<Rightarrow> string \<Rightarrow> error + nat" where
  "table_entry k1 k2 =
     (case dict_get commutation_map k1 of
        Inl e \<Rightarrow> Inl e
      | Inr row \<Rightarrow>
          (case dict_get position k2 of
             Inl e \<Rightarrow> Inl e
           | Inr i \<Rightarrow> list_get row i))"

text \<open>\<open>bool(commutation_map[k1][position[k2]])\<close>.\<close>

definition table_bool :: "string \<Rightarrow> string \<Rightarrow> error + bool" where
  "table_bool k1 k2 = (case table_entry k1 k2 of Inl e \<Rightarrow> Inl e | Inr v \<Rightarrow> Inr (v \<noteq> 0))"

text \<open>\<open>a and b\<close> on two fallible tests: \<open>b\<close> is evaluated only when \<open>a\<close> is true.\<close>

definition and_then :: "error + bool \<Rightarrow> error + bool \<Rightarrow> error + bool" where
  "and_then a b = (case a of Inl e \<Rightarrow> Inl e | Inr x \<Rightarrow> (if x then b else Inr False))"

subsection \<open>Binary64 arithmetic\<close>

text \<open>
  Rounding to the nearest binary64 number, ties to the even significand: a number of binary
  exponent \<open>e\<close> is rounded to a multiple of \<open>2 ^ (e - 52)\<close>, and below \<open>2 ^ (- 1022)\<close> to a
  multiple of \<open>2 ^ (- 1074)\<close>. Results beyond the largest finite number are not modelled.
\<close>

definition round_even :: "real \<Rightarrow> int" where
  "round_even y =
     (if y - of_int \<lfloor>y\<rfloor> < 1 / 2 then \<lfloor>y\<rfloor>
      else if 1 / 2 < y - of_int \<lfloor>y\<rfloor> then \<lfloor>y\<rfloor> + 1
      else if even \<lfloor>y\<rfloor> then \<lfloor>y\<rfloor>
      else \<lfloor>y\<rfloor> + 1)"

definition ulp :: "real \<Rightarrow> real" where
  "ulp x = 2 powr (of_int (max \<lfloor>log 2 \<bar>x\<bar>\<rfloor> (- 1022)) - 52)"

definition fl :: "real \<Rightarrow> real" where
  "fl x = (if x = 0 then 0 else ulp x * of_int (round_even (x / ulp x)))"

text \<open>\<open>np.pi\<close>, the binary64 number nearest to pi; \<open>2 * np.pi\<close>, \<open>np.pi / 2\<close> and their
  negations are exact.\<close>

definition np_pi :: real where
  "np_pi = 884279719003555 / 2 ^ 48"

text \<open>The defaults \<open>rtol = 1e-5\<close> and \<open>atol = 1e-8\<close> of \<open>np.allclose\<close>.\<close>

definition rtol :: real where
  "rtol = fl (1 / 10 ^ 5)"

definition atol :: real where
  "atol = fl (1 / 10 ^ 8)"

subsection \<open>Numeric tests\<close>

text \<open>
  \<open>np.mod(a, b)\<close> on floats, for a modulus that is not zero: the remainder \<open>fmod(a, b)\<close> of
  the division truncated towards zero, which is exact, and \<open>b\<close> added to it when it is not
  zero and has not the sign of \<open>b\<close>.
\<close>

definition fmod :: "real \<Rightarrow> real \<Rightarrow> real" where
  "fmod a b = a - b * of_int (if 0 \<le> a / b then \<lfloor>a / b\<rfloor> else \<lceil>a / b\<rceil>)"

definition np_mod :: "real \<Rightarrow> real \<Rightarrow> real" where
  "np_mod a b =
     (if fmod a b \<noteq> 0 \<and> (b < 0) \<noteq> (fmod a b < 0) then fl (fmod a b + b) else fmod a b)"

text \<open>\<open>np.allclose(a, b)\<close> on floats: \<open>abs(a - b) <= atol + rtol * abs(b)\<close>.\<close>

definition allclose :: "real \<Rightarrow> real \<Rightarrow> bool" where
  "allclose a b = (\<bar>fl (a - b)\<bar> \<le> fl (atol + fl (rtol * \<bar>b\<bar>)))"

text \<open>\<open>np.allclose(np.mod(p, m), t)\<close> on a parameter.\<close>

definition close_mod :: "param \<Rightarrow> real \<Rightarrow> real \<Rightarrow> error + bool" where
  "close_mod p m t =
     (case p of
        FloatParam x \<Rightarrow> Inr (allclose (np_mod x m) t)
      | ComplexParam \<Rightarrow> Inl TypeError)"

text \<open>The sum of two parameters.\<close>

definition add_param :: "param \<Rightarrow> param \<Rightarrow> param" where
  "add_param p q =
     (case p of
        FloatParam x \<Rightarrow>
          (case q of FloatParam y \<Rightarrow> FloatParam (fl (x + y)) | ComplexParam \<Rightarrow> ComplexParam)
      | ComplexParam \<Rightarrow> ComplexParam)"

text \<open>\<open>np.allclose(np.mod(ds[i], m), t)\<close>; \<open>ds[i]\<close> raises \<open>IndexError\<close> out of range.\<close>

definition close_at :: "param list \<Rightarrow> nat \<Rightarrow> real \<Rightarrow> real \<Rightarrow> error + bool" where
  "close_at ds i m t =
     (case list_get ds i of Inl e \<Rightarrow> Inl e | Inr p \<Rightarrow> close_mod p m t)"

text \<open>\<open>np.allclose(np.mod(ds[i] + ds[j], m), t)\<close>.\<close>

definition close_sum_at :: "param list \<Rightarrow> nat \<Rightarrow> nat \<Rightarrow> real \<Rightarrow> real \<Rightarrow> error + bool" where
  "close_sum_at ds i j m t =
     (case list_get ds i of
        Inl e \<Rightarrow> Inl e
      | Inr p \<Rightarrow>
          (case list_get ds j of
             Inl e \<Rightarrow> Inl e
           | Inr q \<Rightarrow> close_mod (add_param p q) m t))"

definition not_res :: "error + bool \<Rightarrow> error + bool" where
  "not_res a = (case a of Inl e \<Rightarrow> Inl e | Inr x \<Rightarrow> Inr (\<not> x))"

text \<open>\<open>np.allclose(np.mod(data, 2 * np.pi), 0)\<close> on the whole parameter list: the list is made
  an array first, and \<open>np.mod\<close> raises \<open>TypeError\<close> when the array is complex.\<close>

definition all_zeros :: "param list \<Rightarrow> error + bool" where
  "all_zeros ds =
     (if list_all is_float ds
      then Inr (list_all (\<lambda>p. allclose (np_mod (float_value p) (2 * np_pi)) 0) ds)
      else Inl TypeError)"

subsection \<open>Wire intersection\<close>

definition intersection :: "label list \<Rightarrow> label list \<Rightarrow> bool" where
  "intersection wires1 wires2 = (filter (\<lambda>w. w \<in> set wires2) wires1 \<noteq> [])"

subsection \<open>Simplification of general rotations\<close>

text \<open>Each function returns the simplified operation, or the operation itself. A parameter that
  the operation does not have raises \<open>IndexError\<close>, a complex one \<open>TypeError\<close>.\<close>

definition simplify_rotation :: "operation \<Rightarrow> error + operation" where
  "simplify_rotation rot =
     (case and_then (close_at (data rot) 0 (2 * np_pi) (np_pi / 2))
                    (close_at (data rot) 2 (- 2 * np_pi) (- np_pi / 2)) of
        Inl e \<Rightarrow> Inl e
      | Inr True \<Rightarrow>
          (case list_get (data rot) 1 of
             Inl e \<Rightarrow> Inl e
           | Inr th \<Rightarrow> Inr (uncontrolled_op ''RX'' [th] (wires rot)))
      | Inr False \<Rightarrow>
     (case and_then (close_at (data rot) 0 (2 * np_pi) 0) (close_at (data rot) 2 (2 * np_pi) 0) of
        Inl e \<Rightarrow> Inl e
      | Inr True \<Rightarrow>
          (case list_get (data rot) 1 of
             Inl e \<Rightarrow> Inl e
           | Inr th \<Rightarrow> Inr (uncontrolled_op ''RY'' [th] (wires rot)))
      | Inr False \<Rightarrow>
     (case close_at (data rot) 1 (2 * np_pi) 0 of
        Inl e \<Rightarrow> Inl e
      | Inr True \<Rightarrow>
          (case list_get (data rot) 0 of
             Inl e \<Rightarrow> Inl e
           | Inr a \<Rightarrow>
               (case list_get (data rot) 2 of
                  Inl e \<Rightarrow> Inl e
                | Inr c \<Rightarrow> Inr (uncontrolled_op ''RZ'' [add_param a c] (wires rot))))
      | Inr False \<Rightarrow>
     (case and_then (close_at (data rot) 0 (2 * np_pi) np_pi)
            (and_then (close_at (data rot) 1 (2 * np_pi) (np_pi / 2))
                      (close_at (data rot) 2 (2 * np_pi) 0)) of
        Inl e \<Rightarrow> Inl e
      | Inr True \<Rightarrow> Inr (uncontrolled_op ''Hadamard'' [] (wires rot))
      | Inr False \<Rightarrow> Inr rot))))"

definition simplify_controlled_rotation :: "operation \<Rightarrow> error + operation" where
  "simplify_controlled_rotation crot =
     (case and_then (close_at (data crot) 0 (2 * np_pi) (np_pi / 2))
                    (close_at (data crot) 2 (- 2 * np_pi) (- np_pi / 2)) of
        Inl e \<Rightarrow> Inl e
      | Inr True \<Rightarrow>
          (case list_get (data crot) 1 of
             Inl e \<Rightarrow> Inl e
           | Inr th \<Rightarrow> Inr (controlled_op ''CRX'' ''RX'' [th] crot))
      | Inr False \<Rightarrow>
     (case and_then (close_at (data crot) 0 (2 * np_pi) 0) (close_at (data crot) 2 (2 * np_pi) 0) of
        Inl e \<Rightarrow> Inl e
      | Inr True \<Rightarrow>
          (case list_get (data crot) 1 of
             Inl e \<Rightarrow> Inl e
           | Inr th \<Rightarrow> Inr (controlled_op ''CRY'' ''RY'' [th] crot))
      | Inr False \<Rightarrow>
     (case close_at (data crot) 1 (2 * np_pi) 0 of
        Inl e \<Rightarrow> Inl e
      | Inr True \<Rightarrow>
          (case list_get (data crot) 0 of
             Inl e \<Rightarrow> Inl e
           | Inr a \<Rightarrow>
               (case list_get (data crot) 2 of
                  Inl e \<Rightarrow> Inl e
                | Inr c \<Rightarrow> Inr (controlled_op ''CRZ'' ''RZ'' [add_param a c] crot)))
      | Inr False \<Rightarrow>
     (case and_then (close_at (data crot) 0 (2 * np_pi) np_pi)
            (and_then (close_at (data crot) 1 (2 * np_pi) (np_pi / 2))
                      (close_at (data crot) 2 (2 * np_pi) 0)) of
        Inl e \<Rightarrow> Inl e
      | Inr True \<Rightarrow> Inr (ctrl_hadamard (control_wires crot) (target_wires crot))
      | Inr False \<Rightarrow> Inr crot))))"

definition simplify_u2 :: "operation \<Rightarrow> error + operation" where
  "simplify_u2 u2 =
     (case and_then (close_at (data u2) 1 (2 * np_pi) 0) (close_sum_at (data u2) 0 1 (2 * np_pi) 0) of
        Inl e \<Rightarrow> Inl e
      | Inr True \<Rightarrow> Inr (uncontrolled_op ''RY'' [FloatParam (np_pi / 2)] (wires u2))
      | Inr False \<Rightarrow>
     (case and_then (close_at (data u2) 1 (np_pi / 2) 0) (close_sum_at (data u2) 0 1 (2 * np_pi) 0) of
        Inl e \<Rightarrow> Inl e
      | Inr True \<Rightarrow>
          (case list_get (data u2) 1 of
             Inl e \<Rightarrow> Inl e
           | Inr d \<Rightarrow> Inr (uncontrolled_op ''RX'' [d] (wires u2)))
      | Inr False \<Rightarrow> Inr u2))"

definition simplify_u3 :: "operation \<Rightarrow> error + operation" where
  "simplify_u3 u3 =
     (case and_then (close_at (data u3) 2 (2 * np_pi) 0)
            (and_then (close_at (data u3) 1 (2 * np_pi) 0)
                      (not_res (close_at (data u3) 0 (2 * np_pi) 0))) of
        Inl e \<Rightarrow> Inl e
      | Inr True \<Rightarrow>
          (case list_get (data u3) 0 of
             Inl e \<Rightarrow> Inl e
           | Inr a \<Rightarrow> Inr (uncontrolled_op ''RZ'' [a] (wires u3)))
      | Inr False \<Rightarrow>
     (case and_then (close_at (data u3) 2 (2 * np_pi) (np_pi / 2))
            (and_then (close_sum_at (data u3) 1 1 (2 * np_pi) 0)
                      (not_res (close_at (data u3) 1 (2 * np_pi) 0))) of
        Inl e \<Rightarrow> Inl e
      | Inr True \<Rightarrow>
          (case list_get (data u3) 1 of
             Inl e \<Rightarrow> Inl e
           | Inr b \<Rightarrow> Inr (uncontrolled_op ''RX'' [b] (wires u3)))
      | Inr False \<Rightarrow>
     (case and_then (close_at (data u3) 2 (2 * np_pi) 0)
            (and_then (not_res (close_at (data u3) 1 (2 * np_pi) 0))
                      (close_sum_at (data u3) 1 1 (2 * np_pi) 0)) of
        Inl e \<Rightarrow> Inl e
      | Inr True \<Rightarrow>
          (case list_get (data u3) 0 of
             Inl e \<Rightarrow> Inl e
           | Inr a \<Rightarrow> Inr (uncontrolled_op ''RY'' [a] (wires u3)))
      | Inr False \<Rightarrow> Inr u3)))"

text \<open>\<open>simplify\<close> returns \<open>None\<close> for any other name.\<close>

definition simplify :: "operation \<Rightarrow> error + operation option" where
  "simplify operation =
     (if name operation = ''Rot'' then map_sum id Some (simplify_rotation operation)
      else if name operation = ''U2'' then map_sum id Some (simplify_u2 operation)
      else if name operation = ''U3'' then map_sum id Some (simplify_u3 operation)
      else if name operation = ''CRot'' then
        map_sum id Some (simplify_controlled_rotation operation)
      else Inr None)"

subsection \<open>The commutation test\<close>

text \<open>The deny list. In the source the fifth and sixth names are written without a comma between
  them, so Python joins the two literals into one string.\<close>

definition not_supported_operations :: "string list" where
  "not_supported_operations =
     [''PauliRot'',
      ''QubitDensityMatrix'',
      ''CVNeuralNetLayers'',
      ''ApproxTimeEvolution'',
      ''ArbitraryUnitary'' @ ''CommutingEvolution'',
      ''DisplacementEmbedding'',
      ''SqueezingEmbedding'']"

definition not_supported :: "operation \<Rightarrow> bool" where
  "not_supported operation =
     (name operation \<in> set not_supported_operations \<or> is_cv operation \<or> is_channel operation)"

definition not_supported_error :: "operation \<Rightarrow> error" where
  "not_supported_error operation =
     QuantumFunctionError (''Operation '' @ name operation @ '' not supported.'')"

definition non_commuting_operations :: "string list" where
  "non_commuting_operations =
     [''ArbitraryStatePreparation'',
      ''BasisStatePreparation'',
      ''MottonenStatePreparation'',
      ''QubitCarry'',
      ''QubitSum'',
      ''SingleExcitation'',
      ''SingleExcitationMinus'',
      ''SingleExcitationPlus'',
      ''DoubleExcitation'',
      ''DoubleExcitationPlus'',
      ''DoubleExcitationMinus'',
      ''BasicEntanglerLayers'',
      ''GateFabric'',
      ''ParticleConservingU1'',
      ''ParticleConservingU2'',
      ''RandomLayers'',
      ''SimplifiedTwoDesign'',
      ''StronglyEntanglingLayers'',
      ''AllSinglesDoubles'',
      ''FermionicDoubleExcitation'',
      ''FermionicSingleExcitation'',
      ''Grover'',
      ''kUpCCGSD'',
      ''Permute'',
      ''QFT'',
      ''QuantumMonteCarlo'',
      ''QuantumPhaseEstimation'',
      ''UCCSD'',
      ''MPS'',
      ''TTN'',
      ''AmplitudeEmbedding'',
      ''AngleEmbedding'',
      ''BasisEmbedding'',
      ''IQPEmbedding'',
      ''QAOAEmbedding'']"

definition rotation_names :: "string list" where
  "rotation_names = [''U2'', ''U3'', ''Rot'', ''CRot'']"

definition barrier_names :: "string list" where
  "barrier_names = [''Barrier'', ''WireCut'']"

text \<open>\<open>if operation.name in ["U2", "U3", "Rot", "CRot"]: operation = simplify(operation)\<close>.\<close>

definition maybe_simplify :: "operation \<Rightarrow> error + operation option" where
  "maybe_simplify operation =
     (if name operation \<in> set rotation_names then simplify operation else Inr (Some operation))"

text \<open>\<open>operation.data and operation.name != "U2"\<close> and then \<open>all_zeros\<close>: a non-empty parameter
  list, all of it close to a multiple of \<open>2 * np.pi\<close>.\<close>

definition implements_identity :: "operation \<Rightarrow> error + bool" where
  "implements_identity operation =
     (if data operation \<noteq> [] \<and> name operation \<noteq> ''U2'' then all_zeros (data operation)
      else Inr False)"

text \<open>\<open>is_controlled\<close> is true in a condition when it is a non-empty string; that string is
  then the key of the table.\<close>

definition ctrl_kind :: "operation \<Rightarrow> string option" where
  "ctrl_kind operation =
     (case is_controlled operation of
        None \<Rightarrow> None
      | Some s \<Rightarrow> (if s = [] then None else Some s))"

text \<open>Two simplified \<open>CRot\<close>. The source calls \<open>np.allcllose\<close>, which numpy does not have:
  looking it up raises \<open>AttributeError\<close> before any matrix is built.\<close>

definition two_crot :: "operation \<Rightarrow> operation \<Rightarrow> error + bool" where
  "two_crot operation1 operation2 =
     (let control_control = intersection (control_wires operation1) (control_wires operation2);
          target_target = intersection (target_wires operation1) (target_wires operation2)
      in if control_control \<and> target_target then Inl AttributeError
         else if control_control \<and> \<not> target_target then Inr True
         else if \<not> control_control \<and> target_target then Inl AttributeError
         else Inr False)"

text \<open>Two simplified rotations, not both \<open>CRot\<close>.\<close>

definition two_rotations :: "operation \<Rightarrow> operation \<Rightarrow> error + bool" where
  "two_rotations operation1 operation2 =
     (if name operation1 = ''CRot'' then
        (if \<not> intersection (target_wires operation1) (wires operation2)
         then table_bool ''ctrl'' (name operation2)
         else Inl AttributeError)
      else if name operation2 = ''CRot'' then
        (if \<not> intersection (target_wires operation2) (wires operation1)
         then table_bool (name operation1) ''ctrl''
         else Inl AttributeError)
      else Inl AttributeError)"

text \<open>Case 2: both operations are controlled, with kinds \<open>c1\<close> and \<open>c2\<close>. When no sub-case
  applies, control reaches the final table lookup of case 5.\<close>

definition both_controlled :: "string \<Rightarrow> string \<Rightarrow> operation \<Rightarrow> operation \<Rightarrow> error + bool" where
  "both_controlled c1 c2 operation1 operation2 =
     (let control_control = intersection (control_wires operation1) (control_wires operation2);
          target_target = intersection (target_wires operation1) (target_wires operation2);
          control_target = intersection (control_wires operation1) (target_wires operation2);
          target_control = intersection (target_wires operation1) (control_wires operation2)
      in if control_control \<and> \<not> target_target \<and> \<not> control_target \<and> \<not> target_control
           then Inr True
         else if \<not> control_control \<and> target_target \<and> \<not> control_target \<and> \<not> target_control
           then table_bool c1 c2
         else if target_target \<and> control_control \<and> \<not> control_target \<and> \<not> target_control
           then table_bool c1 c2
         else if control_target \<and> target_control \<and> \<not> target_target
           then and_then (table_bool ''ctrl'' c2) (table_bool c1 ''ctrl'')
         else if control_target \<and> \<not> target_control \<and> target_target
           then and_then (table_bool ''ctrl'' c2) (table_bool c1 c2)
         else if target_control \<and> \<not> control_target \<and> target_target
           then and_then (table_bool c1 ''ctrl'') (table_bool c1 c2)
         else if target_control \<and> \<not> control_target \<and> \<not> target_target
           then table_bool c1 ''ctrl''
         else if \<not> target_control \<and> control_target \<and> \<not> target_target
           then table_bool ''ctrl'' c2
         else if target_control \<and> control_target \<and> target_target
           then and_then (table_bool c1 ''ctrl'')
                  (and_then (table_bool ''ctrl'' c2) (table_bool c1 c2))
         else table_bool (name operation1) (name operation2))"

text \<open>Case 3: only operation 1 is controlled.\<close>

definition first_controlled :: "string \<Rightarrow> operation \<Rightarrow> operation \<Rightarrow> error + bool" where
  "first_controlled c1 operation1 operation2 =
     (let control_target = intersection (control_wires operation1) (wires operation2);
          target_target = intersection (target_wires operation1) (wires operation2)
      in if control_target \<and> target_target
           then and_then (table_bool c1 (name operation2)) (table_bool ''ctrl'' (name operation2))
         else if control_target \<and> \<not> target_target
           then table_bool ''ctrl'' (name operation2)
         else if \<not> control_target \<and> target_target
           then table_bool c1 (name operation2)
         else table_bool (name operation1) (name operation2))"

text \<open>Case 4: only operation 2 is controlled.\<close>

definition second_controlled :: "string \<Rightarrow> operation \<Rightarrow> operation \<Rightarrow> error + bool" where
  "second_controlled c2 operation1 operation2 =
     (let target_control = intersection (wires operation1) (control_wires operation2);
          target_target = intersection (wires operation1) (target_wires operation2)
      in if target_control \<and> target_target
           then and_then (table_bool (name operation1) c2) (table_bool (name operation1) c2)
         else if target_control \<and> \<not> target_target
           then table_bool (name operation1) ''ctrl''
         else if \<not> target_control \<and> target_target
           then table_bool (name operation1) c2
         else table_bool (name operation1) (name operation2))"

text \<open>Everything after the test against \<open>non_commuting_operations\<close>.\<close>

definition commuting_cases :: "operation \<Rightarrow> operation \<Rightarrow> error + bool" where
  "commuting_cases operation1 operation2 =
     (if name operation1 = ''CRot'' \<and> name operation2 = ''CRot''
        then two_crot operation1 operation2
      else if name operation1 \<in> set rotation_names \<and> name operation2 \<in> set rotation_names
        then two_rotations operation1 operation2
      else
        (case ctrl_kind operation1 of
           Some c1 \<Rightarrow>
             (case ctrl_kind operation2 of
                Some c2 \<Rightarrow> both_controlled c1 c2 operation1 operation2
              | None \<Rightarrow> first_controlled c1 operation1 operation2)
         | None \<Rightarrow>
             (case ctrl_kind operation2 of
                Some c2 \<Rightarrow> second_controlled c2 operation1 operation2
              | None \<Rightarrow> table_bool (name operation1) (name operation2))))"

text \<open>The body of \<open>is_commuting\<close> on the two simplified operations. The condition
  \<open>operation1.name or operation2.name in non_commuting_operations\<close> is Python's
  \<open>operation1.name or (operation2.name in non_commuting_operations)\<close>: it holds as soon as the
  first name is a non-empty string.\<close>

definition commuting_simplified :: "operation \<Rightarrow> operation \<Rightarrow> error + bool" where
  "commuting_simplified operation1 operation2 =
     (case implements_identity operation1 of
        Inl e \<Rightarrow> Inl e
      | Inr True \<Rightarrow> Inr (name operation2 \<notin> set barrier_names)
      | Inr False \<Rightarrow>
     (case implements_identity operation2 of
        Inl e \<Rightarrow> Inl e
      | Inr True \<Rightarrow> Inr (name operation1 \<notin> set barrier_names)
      | Inr False \<Rightarrow>
          (if \<not> intersection (wires operation1) (wires operation2) then Inr True
           else if name operation1 \<noteq> [] \<or> name operation2 \<in> set non_commuting_operations
             then Inr False
           else commuting_cases operation1 operation2)))"

text \<open>\<open>is_commuting\<close>. An operand that \<open>simplify\<close> turned into \<open>None\<close> raises \<open>AttributeError\<close>
  at its first attribute access.\<close>

definition is_commuting :: "operation \<Rightarrow> operation \<Rightarrow> error + bool" where
  "is_commuting operation1 operation2 =
     (if not_supported operation1 then Inl (not_supported_error operation1)
      else if not_supported operation2 then Inl (not_supported_error operation2)
      else
        (case maybe_simplify operation1 of
           Inl e \<Rightarrow> Inl e
         | Inr s1 \<Rightarrow>
             (case maybe_simplify operation2 of
                Inl e \<Rightarrow> Inl e
              | Inr s2 \<Rightarrow>
                  (case s1 of
                     None \<Rightarrow> Inl AttributeError
                   | Some op1 \<Rightarrow>
                       (case s2 of
                          None \<Rightarrow> Inl AttributeError
                        | Some op2 \<Rightarrow> commuting_simplified op1 op2)))))"

subsection \<open>Merging sorted lists\<close>

text \<open>\<open>heapq.merge\<close> yields, again and again, the smallest of the first elements of its
  iterables, from the earliest iterable that has it.\<close>

definition heads :: "nat list list \<Rightarrow> nat list" where
  "heads ls = map hd (filter (\<lambda>l. l \<noteq> []) ls)"

fun drop_first :: "nat \<Rightarrow> nat list list \<Rightarrow> nat list list" where
  "drop_first m [] = []"
| "drop_first m ([] # ls) = [] # drop_first m ls"
| "drop_first m ((x # xs) # ls) = (if x = m then xs # ls else (x # xs) # drop_first m ls)"

function heapq_merge :: "nat list list \<Rightarrow> nat list" where
  "heapq_merge ls =
     (if heads ls = [] then []
      else Min (set (heads ls)) # heapq_merge (drop_first (Min (set (heads ls))) ls))"
  by pat_completeness auto
termination
proof (relation "measure (\<lambda>ls. sum_list (map length ls))")
  show "wf (measure (\<lambda>ls. sum_list (map length ls)))" by simp
next
  fix ls :: "nat list list"
  assume "heads ls \<noteq> []"
  then have in_heads: "Min (set (heads ls)) \<in> set (heads ls)"
    by (intro Min_in) auto
  have shorter: "m \<in> set (heads ks) \<Longrightarrow>
      sum_list (map length (drop_first m ks)) < sum_list (map length ks)" for m ks
    by (induction m ks rule: drop_first.induct) (auto simp: heads_def)
  from in_heads shorter
  show "(drop_first (Min (set (heads ls))) ls, ls) \<in> measure (\<lambda>ls. sum_list (map length ls))"
    by simp
qed

declare heapq_merge.simps [simp del]

text \<open>\<open>_merge_no_duplicates\<close>: the merge, without equal neighbours.\<close>

definition merge_no_duplicates :: "nat list list \<Rightarrow> nat list" where
  "merge_no_duplicates iterables = remdups_adj (heapq_merge iterables)"

subsection \<open>Nodes and the DAG\<close>

record node =
  op :: operation
  node_wires :: "label list"
  node_target_wires :: "label list"
  node_control_wires :: "label list"
  node_id :: int
  successors :: "nat list"
  predecessors :: "nat list"
  reachable :: "bool option"
  matchedwith :: "nat list"
  isblocked :: "bool option"
  successorstovisit :: "nat list"

text \<open>Modelled from the spec: the observable classes are missing from the sources. An
  observable has a name and wires. A tensor product of observables computes its wires from
  those of its factors (\<open>Wires.all_wires\<close>: every wire once, in the order of first appearance),
  and does not read the attribute \<open>_wires\<close>.\<close>

datatype observable =
    Observable string "label list"
  | Tensor "(string \<times> label list) list"




text \<open>
  The multigraph of \<open>CommutationDAG\<close>: \<open>nodes\<close> holds the node stored under key \<open>i\<close> at position
  \<open>i\<close> (the keys are the values 0, 1, 2, ... of the counter \<open>node_id\<close>, which starts at -1), and
  \<open>edges\<close> is the list of edges in the order they were added, parallel edges included.
\<close>

record dag =
  dag_wires :: "label list"
  num_wires :: nat
  dag_node_id :: int
  nodes :: "node list"
  edges :: "(nat \<times> nat) list"
  dag_observables :: "observable list"

text \<open>\<open>CommutationDAG.__init__\<close>.\<close>

definition init_dag :: "label list \<Rightarrow> observable list \<Rightarrow> dag" where
  "init_dag ws obs =
     \<lparr>dag_wires = ws, num_wires = length ws, dag_node_id = - 1, nodes = [], edges = [],
      dag_observables = obs\<rparr>"

text \<open>\<open>_add_node\<close>.\<close>

definition dag_add_node :: "dag \<Rightarrow> node \<Rightarrow> dag" where
  "dag_add_node d nd =
     d\<lparr>dag_node_id := dag_node_id d + 1,
       nodes := nodes d @ [nd\<lparr>node_id := dag_node_id d + 1\<rparr>]\<rparr>"

text \<open>\<open>get_node\<close>: a key that is not in the graph raises \<open>KeyError\<close>.\<close>

definition get_node :: "dag \<Rightarrow> nat \<Rightarrow> error + node" where
  "get_node d i = (if i < length (nodes d) then Inr (nodes d ! i) else Inl KeyError)"

text \<open>Storing back the node of key \<open>i\<close> after an attribute of it was assigned.\<close>

definition put_node :: "dag \<Rightarrow> nat \<Rightarrow> node \<Rightarrow> dag" where
  "put_node d i nd = d\<lparr>nodes := (nodes d)[i := nd]\<rparr>"

definition add_edge :: "dag \<Rightarrow> nat \<Rightarrow> nat \<Rightarrow> dag" where
  "add_edge d node_in node_out = d\<lparr>edges := edges d @ [(node_in, node_out)]\<rparr>"

definition direct_predecessors :: "dag \<Rightarrow> nat \<Rightarrow> error + nat list" where
  "direct_predecessors d i =
     (if i < length (nodes d)
      then Inr (sort (remdups (map fst (filter (\<lambda>e. snd e = i) (edges d)))))
      else Inl KeyError)"


text \<open>\<open>nx.ancestors\<close> and \<open>nx.descendants\<close>: the nodes with a path to, or from, the node, the
  node itself excluded; \<open>predecessors\<close> and \<open>successors\<close> of the DAG sort them.\<close>

definition dag_predecessors :: "dag \<Rightarrow> nat \<Rightarrow> error + nat list" where
  "dag_predecessors d i =
     (if i < length (nodes d)
      then Inr (sort (remdups
             (filter (\<lambda>a. (a, i) \<in> (set (edges d))\<^sup>+ \<and> a \<noteq> i) (map fst (edges d)))))
      else Inl KeyError)"

definition dag_successors :: "dag \<Rightarrow> nat \<Rightarrow> error + nat list" where
  "dag_successors d i =
     (if i < length (nodes d)
      then Inr (sort (remdups
             (filter (\<lambda>a. (i, a) \<in> (set (edges d))\<^sup>+ \<and> a \<noteq> i) (map snd (edges d)))))
      else Inl KeyError)"

text \<open>The lists that \<open>_pred_update\<close> appends for the direct predecessors \<open>dps\<close>: the singleton of
  each one, then its stored predecessors.\<close>

fun pred_lists :: "dag \<Rightarrow> nat list \<Rightarrow> error + nat list list" where
  "pred_lists d [] = Inr []"
| "pred_lists d (d_pred # dps) =
     (case get_node d d_pred of
        Inl e \<Rightarrow> Inl e
      | Inr nd \<Rightarrow>
          (case pred_lists d dps of
             Inl e \<Rightarrow> Inl e
           | Inr ls \<Rightarrow> Inr ([d_pred] # predecessors nd # ls)))"

text \<open>\<open>_pred_update\<close>. The edges of the DAG never join a node to itself, so the list being
  built is not among the lists appended to it.\<close>

definition pred_update :: "dag \<Rightarrow> nat \<Rightarrow> error + dag" where
  "pred_update d i =
     (case get_node d i of
        Inl e \<Rightarrow> Inl e
      | Inr nd \<Rightarrow>
          (let d0 = put_node d i (nd\<lparr>predecessors := []\<rparr>) in
           case direct_predecessors d0 i of
             Inl e \<Rightarrow> Inl e
           | Inr dps \<Rightarrow>
               (case pred_lists d0 dps of
                  Inl e \<Rightarrow> Inl e
                | Inr ls \<Rightarrow>
                    Inr (put_node d0 i (nd\<lparr>predecessors := merge_no_duplicates ls\<rparr>)))))"

text \<open>\<open>for i in ids: self.get_node(i).reachable = b\<close>.\<close>

fun set_reachable :: "bool \<Rightarrow> nat list \<Rightarrow> dag \<Rightarrow> error + dag" where
  "set_reachable b [] d = Inr d"
| "set_reachable b (i # ids) d =
     (case get_node d i of
        Inl e \<Rightarrow> Inl e
      | Inr nd \<Rightarrow> set_reachable b ids (put_node d i (nd\<lparr>reachable := Some b\<rparr>)))"

text \<open>The second loop of \<open>_update_edges\<close>: \<open>scan_prev p\<close> runs it for \<open>prev_node_id\<close> from
  \<open>p - 1\<close> down to 0.\<close>

fun scan_prev :: "nat \<Rightarrow> nat \<Rightarrow> operation \<Rightarrow> dag \<Rightarrow> error + dag" where
  "scan_prev 0 max_node_id max_node d = Inr d"
| "scan_prev (Suc prev_node_id) max_node_id max_node d =
     (case get_node d prev_node_id of
        Inl e \<Rightarrow> Inl e
      | Inr prev \<Rightarrow>
          (if reachable prev = Some True then
             (case is_commuting (op prev) max_node of
                Inl e \<Rightarrow> Inl e
              | Inr c \<Rightarrow>
                  (if \<not> c then
                     (case pred_update (add_edge d prev_node_id max_node_id) max_node_id of
                        Inl e \<Rightarrow> Inl e
                      | Inr d1 \<Rightarrow>
                          (case get_node d1 max_node_id of
                             Inl e \<Rightarrow> Inl e
                           | Inr mx \<Rightarrow>
                               (case set_reachable False (predecessors mx) d1 of
                                  Inl e \<Rightarrow> Inl e
                                | Inr d2 \<Rightarrow> scan_prev prev_node_id max_node_id max_node d2)))
                   else scan_prev prev_node_id max_node_id max_node d))
           else scan_prev prev_node_id max_node_id max_node d))"

text \<open>\<open>_update_edges\<close>. On an empty graph \<open>max_node_id\<close> is -1, which is no key.\<close>

definition update_edges :: "dag \<Rightarrow> error + dag" where
  "update_edges d =
     (if nodes d = [] then Inl KeyError
      else
        (let max_node_id = length (nodes d) - 1 in
         case get_node d max_node_id of
           Inl e \<Rightarrow> Inl e
         | Inr mx \<Rightarrow>
             (case set_reachable True [0..<max_node_id] d of
                Inl e \<Rightarrow> Inl e
              | Inr d1 \<Rightarrow> scan_prev max_node_id max_node_id (op mx) d1)))"

text \<open>\<open>add_node\<close>.\<close>

definition new_node :: "operation \<Rightarrow> node" where
  "new_node operation =
     (if ctrl_kind operation \<noteq> None then
        \<lparr>op = operation, node_wires = wires operation,
         node_target_wires = target_wires operation,
         node_control_wires = control_wires operation,
         node_id = - 1, successors = [], predecessors = [], reachable = None,
         matchedwith = [], isblocked = None, successorstovisit = []\<rparr>
      else
        \<lparr>op = operation, node_wires = wires operation,
         node_target_wires = wires operation,
         node_control_wires = [],
         node_id = - 1, successors = [], predecessors = [], reachable = None,
         matchedwith = [], isblocked = None, successorstovisit = []\<rparr>)"

definition add_node :: "dag \<Rightarrow> operation \<Rightarrow> error + dag" where
  "add_node d operation = update_edges (dag_add_node d (new_node operation))"

text \<open>Inserting a sequence of operations in order.\<close>

fun add_nodes :: "dag \<Rightarrow> operation list \<Rightarrow> error + dag" where
  "add_nodes d [] = Inr d"
| "add_nodes d (operation # ops) =
     (case add_node d operation of
        Inl e \<Rightarrow> Inl e
      | Inr d1 \<Rightarrow> add_nodes d1 ops)"





subsection \<open>The transform\<close>










subsection \<open>Operations the module is applied to\<close>

text \<open>
  An operation of the library has a non-empty name (its class name), \<open>Rot\<close>, \<open>U3\<close> and \<open>CRot\<close>
  have three angles and \<open>U2\<close> two, all of them floats, \<open>Barrier\<close> and \<open>WireCut\<close> have no
  parameter, and the control and target wires of a \<open>CRot\<close> make up its wires.
\<close>

definition well_formed :: "operation \<Rightarrow> bool" where
  "well_formed operation =
     (name operation \<noteq> [] \<and>
      (name operation \<in> set [''Rot'', ''U3'', ''CRot''] \<longrightarrow> length (data operation) = 3) \<and>
      (name operation = ''U2'' \<longrightarrow> length (data operation) = 2) \<and>
      (name operation \<in> set rotation_names \<longrightarrow> list_all is_float (data operation)) \<and>
      (name operation \<in> set barrier_names \<longrightarrow> data operation = []) \<and>
      (name operation = ''CRot'' \<longrightarrow>
         set (control_wires operation) \<union> set (target_wires operation) = set (wires operation)))"

text \<open>All the parameters of the operation are floats.\<close>

definition real_parameters :: "operation \<Rightarrow> bool" where
  "real_parameters operation = list_all is_float (data operation)"

text \<open>A parametrized operation whose parameters are all congruent to 0 modulo \<open>2 * pi\<close>, in the
  sense of the module's own test \<open>np.allclose(np.mod(data, 2 * np.pi), 0)\<close>.\<close>

definition has_zero_parameters :: "operation \<Rightarrow> bool" where
  "has_zero_parameters operation =
     (data operation \<noteq> [] \<and> all_zeros (data operation) = Inr True)"

text \<open>What the proofs below need to know about an operation \<open>a'\<close> obtained by simplifying a
  well-formed operation \<open>a\<close>.\<close>

definition simplified_from :: "operation \<Rightarrow> operation \<Rightarrow> bool" where
  "simplified_from a a' =
     (name a' \<noteq> [] \<and>
      (name a' \<in> set barrier_names) = (name a \<in> set barrier_names) \<and>
      set (wires a') = set (wires a) \<and>
      (data a' = [] \<or> name a' \<notin> set barrier_names) \<and>
      (list_all is_float (data a) \<longrightarrow> list_all is_float (data a')))"

subsection \<open>Direction of the edges\<close>

text \<open>Every edge goes from a lower key to a higher key of the graph.\<close>

definition forward_edges :: "dag \<Rightarrow> bool" where
  "forward_edges d = list_all (\<lambda>e. fst e < snd e \<and> snd e < length (nodes d)) (edges d)"

subsection \<open>The brute-force construction\<close>

text \<open>
  The construction the incremental builder is compared with: a direct edge from \<open>i\<close> to \<open>j\<close>
  for every pair \<open>i < j\<close> of positions whose operations \<open>is_commuting\<close> finds not to commute.
\<close>

definition non_commuting :: "operation list \<Rightarrow> nat \<Rightarrow> nat \<Rightarrow> bool" where
  "non_commuting ops i j = (is_commuting (ops ! i) (ops ! j) = Inr False)"

definition brute_force_edges :: "operation list \<Rightarrow> (nat \<times> nat) list" where
  "brute_force_edges ops =
     concat (map (\<lambda>j. map (\<lambda>i. (i, j)) (filter (\<lambda>i. non_commuting ops i j) [0..<j]))
                 [0..<length ops])"

definition brute_force :: "dag \<Rightarrow> operation list \<Rightarrow> dag" where
  "brute_force d ops =
     d\<lparr>dag_node_id := int (length ops) - 1,
       nodes := map new_node ops,
       edges := brute_force_edges ops\<rparr>"

text \<open>\<open>is_commuting\<close> returns on every pair of the operations.\<close>

definition commuting_total :: "operation list \<Rightarrow> bool" where
  "commuting_total ops =
     (\<forall>i<length ops. \<forall>j<length ops. \<exists>r. is_commuting (ops ! i) (ops ! j) = Inr r)"

text \<open>
  The invariant of the builder after the operations \<open>ops\<close> were added: every edge joins a
  non-commuting pair, forward; the stored predecessors of a node contain every earlier node
  that does not commute with it, and only nodes with a path to it.
\<close>

definition dag_inv :: "operation list \<Rightarrow> dag \<Rightarrow> bool" where
  "dag_inv ops d =
     (map op (nodes d) = ops \<and>
      (\<forall>e\<in>set (edges d).
          fst e < snd e \<and> snd e < length ops \<and> non_commuting ops (fst e) (snd e)) \<and>
      (\<forall>j<length ops. \<forall>i<j.
          non_commuting ops i j \<longrightarrow> i \<in> set (predecessors (nodes d ! j))) \<and>
      (\<forall>j<length ops. \<forall>i\<in>set (predecessors (nodes d ! j)). (i, j) \<in> (set (edges d))\<^sup>+))"

text \<open>
  The invariant of the second loop of \<open>_update_edges\<close> for the new node \<open>n\<close>, when the nodes
  from \<open>p\<close> on have been visited: in addition, the stored predecessors of \<open>n\<close> are its direct
  predecessors and their stored predecessors, they contain every visited node that does not
  commute with \<open>n\<close>, and every node that is not among them is still marked reachable.
\<close>

definition scan_inv :: "operation list \<Rightarrow> nat \<Rightarrow> nat \<Rightarrow> dag \<Rightarrow> bool" where
  "scan_inv ops n p d =
     (length ops = Suc n \<and> map op (nodes d) = ops \<and>
      (\<forall>e\<in>set (edges d).
          fst e < snd e \<and> snd e \<le> n \<and> non_commuting ops (fst e) (snd e)) \<and>
      (\<forall>j<n. \<forall>i<j. non_commuting ops i j \<longrightarrow> i \<in> set (predecessors (nodes d ! j))) \<and>
      (\<forall>j<n. \<forall>i\<in>set (predecessors (nodes d ! j)). (i, j) \<in> (set (edges d))\<^sup>+) \<and>
      (\<forall>i<n. p \<le> i \<longrightarrow> non_commuting ops i n \<longrightarrow> i \<in> set (predecessors (nodes d ! n))) \<and>
      set (predecessors (nodes d ! n)) =
        (\<Union>a\<in>{a. (a, n) \<in> set (edges d)}. insert a (set (predecessors (nodes d ! a)))) \<and>
      (\<forall>i<n. reachable (nodes d ! i) = Some True \<or> i \<in> set (predecessors (nodes d ! n))))"

subsection \<open>Undoing the relabelling\<close>





section \<open>Properties of the commutation test\<close>

subsection \<open>Rounding\<close>

lemma round_even_ge: "of_int n \<le> y \<Longrightarrow> n \<le> round_even y"
proof -
  assume "of_int n \<le> y"
  then have "n \<le> \<lfloor>y\<rfloor>" by (simp add: le_floor_iff)
  then show ?thesis by (auto simp: round_even_def)
qed

lemma round_even_le: "y \<le> of_int n \<Longrightarrow> round_even y \<le> n"
proof (cases "y = of_int n")
  case True
  then show ?thesis by (simp add: round_even_def)
next
  case False
  assume "y \<le> of_int n"
  with False have "y < of_int n" by simp
  then have "\<lfloor>y\<rfloor> < n" by (simp add: floor_less_iff)
  then show ?thesis by (auto simp: round_even_def)
qed

lemma ulp_pos: "0 < ulp x"
  by (simp add: ulp_def)

lemma fl_zero: "fl 0 = 0"
  by (simp add: fl_def)

lemma fl_nonneg: "0 \<le> x \<Longrightarrow> 0 \<le> fl x"
proof -
  assume "0 \<le> x"
  then have "of_int 0 \<le> x / ulp x" using ulp_pos[of x] by simp
  then have "0 \<le> round_even (x / ulp x)" by (rule round_even_ge)
  then show ?thesis using ulp_pos[of x] by (simp add: fl_def)
qed

lemma exponent_le:
  assumes "x \<noteq> 0"
  shows "2 powr of_int \<lfloor>log 2 \<bar>x\<bar>\<rfloor> \<le> \<bar>x\<bar>"
proof -
  have pos: "0 < \<bar>x\<bar>" using assms by simp
  have "of_int \<lfloor>log 2 \<bar>x\<bar>\<rfloor> \<le> log 2 \<bar>x\<bar>" by (rule of_int_floor_le)
  with le_log_iff[of 2 "\<bar>x\<bar>" "of_int \<lfloor>log 2 \<bar>x\<bar>\<rfloor>"] pos show ?thesis by linarith
qed

lemma exponent_less:
  assumes "x \<noteq> 0"
  shows "\<bar>x\<bar> < 2 powr (of_int \<lfloor>log 2 \<bar>x\<bar>\<rfloor> + 1)"
proof -
  have pos: "0 < \<bar>x\<bar>" using assms by simp
  have "log 2 \<bar>x\<bar> < of_int \<lfloor>log 2 \<bar>x\<bar>\<rfloor> + 1" by linarith
  with log_less_iff[of 2 "\<bar>x\<bar>" "of_int \<lfloor>log 2 \<bar>x\<bar>\<rfloor> + 1"] pos show ?thesis by linarith
qed

lemma ulp_normal:
  assumes "- 1022 \<le> \<lfloor>log 2 \<bar>x\<bar>\<rfloor>"
  shows "ulp x * 2 ^ 52 = 2 powr of_int \<lfloor>log 2 \<bar>x\<bar>\<rfloor>"
proof -
  have "max \<lfloor>log 2 \<bar>x\<bar>\<rfloor> (- 1022) = \<lfloor>log 2 \<bar>x\<bar>\<rfloor>" using assms by simp
  then have "ulp x = 2 powr (of_int \<lfloor>log 2 \<bar>x\<bar>\<rfloor> - 52)" by (simp add: ulp_def)
  also have "\<dots> = 2 powr of_int \<lfloor>log 2 \<bar>x\<bar>\<rfloor> / 2 powr 52" by (rule powr_diff)
  finally show ?thesis by simp
qed

lemma fl_ge_pow:
  assumes k: "- 1022 \<le> k" and x: "2 powr of_int k \<le> x"
  shows "2 powr of_int k \<le> fl x"
proof -
  have "0 < (2::real) powr of_int k" by simp
  with x have xpos: "0 < x" by linarith
  let ?e = "\<lfloor>log 2 \<bar>x\<bar>\<rfloor>"
  from le_log_iff[of 2 x "of_int k"] x xpos have "of_int k \<le> log 2 x" by simp
  then have ke: "k \<le> ?e" using xpos by (simp add: le_floor_iff)
  have un: "ulp x * 2 ^ 52 = 2 powr of_int ?e" using ke k by (intro ulp_normal) linarith
  have "2 powr of_int ?e \<le> x" using exponent_le[of x] xpos by simp
  then have "ulp x * 2 ^ 52 \<le> x" by (simp only: un)
  then have "of_int (2 ^ 52) \<le> x / ulp x"
    using ulp_pos[of x] by (simp add: pos_le_divide_eq mult.commute)
  then have "2 ^ 52 \<le> round_even (x / ulp x)" by (rule round_even_ge)
  then have "(2::real) ^ 52 \<le> of_int (round_even (x / ulp x))"
    by (metis of_int_le_iff of_int_numeral of_int_power)
  then have "ulp x * 2 ^ 52 \<le> ulp x * of_int (round_even (x / ulp x))"
    using ulp_pos[of x] by (simp only: mult_le_cancel_left_pos)
  then have "2 powr of_int ?e \<le> fl x" using xpos by (simp only: un fl_def) simp
  moreover have "2 powr of_int k \<le> (2::real) powr of_int ?e" using ke by simp
  ultimately show ?thesis by linarith
qed

lemma fl_le_neg_pow:
  assumes k: "- 1022 \<le> k" and x: "x \<le> - (2 powr of_int k)"
  shows "fl x \<le> - (2 powr of_int k)"
proof -
  have "0 < (2::real) powr of_int k" by simp
  with x have xneg: "x < 0" by linarith
  let ?e = "\<lfloor>log 2 \<bar>x\<bar>\<rfloor>"
  from le_log_iff[of 2 "\<bar>x\<bar>" "of_int k"] x xneg have "of_int k \<le> log 2 \<bar>x\<bar>" by simp
  then have ke: "k \<le> ?e" by (simp add: le_floor_iff)
  have un: "ulp x * 2 ^ 52 = 2 powr of_int ?e" using ke k by (intro ulp_normal) linarith
  have "2 powr of_int ?e \<le> - x" using exponent_le[of x] xneg by simp
  then have "ulp x * 2 ^ 52 \<le> - x" by (simp only: un)
  then have "x \<le> - (2 ^ 52) * ulp x" by (simp add: mult.commute)
  then have "x / ulp x \<le> of_int (- (2 ^ 52))"
    using ulp_pos[of x] by (simp add: pos_divide_le_eq)
  then have "round_even (x / ulp x) \<le> - (2 ^ 52)" by (rule round_even_le)
  then have "of_int (round_even (x / ulp x)) \<le> - ((2::real) ^ 52)"
    by (metis of_int_le_iff of_int_minus of_int_numeral of_int_power)
  then have "ulp x * of_int (round_even (x / ulp x)) \<le> ulp x * (- (2 ^ 52))"
    using ulp_pos[of x] by (simp only: mult_le_cancel_left_pos)
  also have "\<dots> = - (ulp x * 2 ^ 52)" by simp
  also have "\<dots> = - (2 powr of_int ?e)" by (simp only: un)
  finally have "fl x \<le> - (2 powr of_int ?e)" using xneg by (simp add: fl_def)
  moreover have "2 powr of_int k \<le> (2::real) powr of_int ?e" using ke by simp
  ultimately show ?thesis by linarith
qed

lemma fl_le_pow:
  assumes k: "- 1022 \<le> k" and x0: "0 \<le> x" and x: "x \<le> 2 powr of_int k"
  shows "fl x \<le> 2 powr of_int k"
proof (cases "x = 0")
  case True
  then show ?thesis by (simp add: fl_zero)
next
  case False
  with x0 have xpos: "0 < x" by simp
  let ?e = "\<lfloor>log 2 \<bar>x\<bar>\<rfloor>"
  let ?m = "max ?e (- 1022)"
  from log_le_iff[of 2 x "of_int k"] x xpos have "log 2 x \<le> of_int k" by simp
  then have ek: "?e \<le> k" using xpos by (simp add: floor_le_iff)
  then have mk: "?m \<le> k" using k by simp
  have u: "ulp x = 2 powr (of_int ?m - 52)" by (simp add: ulp_def)
  define j where "j = min k (?m + 1)"
  have jm: "?m \<le> j" "j \<le> ?m + 1" "j \<le> k" using mk by (simp_all add: j_def)
  define n :: nat where "n = nat (j - ?m + 52)"
  have n: "of_int (j - ?m + 52) = (real n)" using jm by (simp add: n_def)
  have upow: "ulp x * 2 ^ n = 2 powr of_int j"
  proof -
    have "(2::real) ^ n = 2 powr (real n)" by (simp add: powr_realpow)
    also have "\<dots> = 2 powr (of_int j - (of_int ?m - 52))" using n by (simp add: algebra_simps)
    finally show ?thesis unfolding u by (simp add: powr_diff)
  qed
  have "x < 2 powr (of_int ?e + 1)" using exponent_less[of x] xpos by simp
  also have "\<dots> \<le> 2 powr (of_int ?m + 1)" by simp
  finally have "x \<le> 2 powr of_int (?m + 1)" by simp
  with x have xj: "x \<le> 2 powr of_int j" by (simp add: j_def min_def)
  then have "x \<le> 2 ^ n * ulp x" by (simp only: upow[symmetric] mult.commute)
  then have "x / ulp x \<le> of_int (2 ^ n)"
    using ulp_pos[of x] by (simp add: pos_divide_le_eq)
  then have "round_even (x / ulp x) \<le> 2 ^ n" by (rule round_even_le)
  then have "of_int (round_even (x / ulp x)) \<le> (2::real) ^ n"
    by (metis of_int_le_iff of_int_numeral of_int_power)
  then have "ulp x * of_int (round_even (x / ulp x)) \<le> ulp x * 2 ^ n"
    using ulp_pos[of x] by (simp only: mult_le_cancel_left_pos)
  then have "fl x \<le> 2 powr of_int j" using xpos by (simp only: upow fl_def) simp
  moreover have "(2::real) powr of_int j \<le> 2 powr of_int k" using jm by simp
  ultimately show ?thesis by linarith
qed

subsection \<open>Numeric facts\<close>

lemma np_pi_bounds: "3 < np_pi" "np_pi < 4"
  by (simp_all add: np_pi_def)

lemma fl_le_one: "0 \<le> x \<Longrightarrow> x \<le> 1 / 2 ^ n \<Longrightarrow> n \<le> 1022 \<Longrightarrow> fl x \<le> 1 / 2 ^ n"
proof -
  assume a: "0 \<le> x" "x \<le> 1 / 2 ^ n" "n \<le> 1022"
  have p: "(2::real) powr of_int (- int n) = 1 / 2 ^ n"
    by (simp add: powr_minus_divide powr_realpow)
  have "x \<le> 2 powr of_int (- int n)" using a(2) by (simp only: p)
  moreover have "- 1022 \<le> - int n" using a(3) by simp
  ultimately have "fl x \<le> 2 powr of_int (- int n)"
    using a(1) by (intro fl_le_pow)
  then show ?thesis by (simp only: p)
qed

lemma fl_ge_one: "1 \<le> x \<Longrightarrow> 1 \<le> fl x"
  using fl_ge_pow[of 0 x] by simp


lemma fl_le_minus_one: "x \<le> - 1 \<Longrightarrow> fl x \<le> - 1"
  using fl_le_neg_pow[of 0 x] by simp

lemma atol_bounds: "0 \<le> atol" "atol \<le> 1 / 2 ^ 26"
proof -
  show "0 \<le> atol" unfolding atol_def by (rule fl_nonneg) simp
  show "atol \<le> 1 / 2 ^ 26" unfolding atol_def by (rule fl_le_one) simp_all
qed

lemma rtol_bounds: "0 \<le> rtol" "rtol \<le> 1 / 2 ^ 16"
proof -
  show "0 \<le> rtol" unfolding rtol_def by (rule fl_nonneg) simp
  show "rtol \<le> 1 / 2 ^ 16" unfolding rtol_def by (rule fl_le_one) simp_all
qed

lemma tolerance_bounds:
  assumes "\<bar>b\<bar> \<le> 4"
  shows "0 \<le> fl (atol + fl (rtol * \<bar>b\<bar>))" and "fl (atol + fl (rtol * \<bar>b\<bar>)) \<le> 1 / 2 ^ 13"
proof -
  have r0: "0 \<le> rtol * \<bar>b\<bar>" using rtol_bounds(1) by simp
  have "rtol * \<bar>b\<bar> \<le> 1 / 2 ^ 16 * 4"
    using rtol_bounds assms by (intro mult_mono) simp_all
  then have r1: "rtol * \<bar>b\<bar> \<le> 1 / 2 ^ 14" by simp
  have f0: "0 \<le> fl (rtol * \<bar>b\<bar>)" using r0 by (rule fl_nonneg)
  have f1: "fl (rtol * \<bar>b\<bar>) \<le> 1 / 2 ^ 14" using r0 r1 by (rule fl_le_one) simp
  have s0: "0 \<le> atol + fl (rtol * \<bar>b\<bar>)" using atol_bounds(1) f0 by simp
  have s1: "atol + fl (rtol * \<bar>b\<bar>) \<le> 1 / 2 ^ 13" using atol_bounds(2) f1 by simp
  show "0 \<le> fl (atol + fl (rtol * \<bar>b\<bar>))" using s0 by (rule fl_nonneg)
  show "fl (atol + fl (rtol * \<bar>b\<bar>)) \<le> 1 / 2 ^ 13" using s0 s1 by (rule fl_le_one) simp
qed

lemma allclose_0_0: "allclose 0 0"
  using tolerance_bounds(1)[of 0] by (simp add: allclose_def fl_zero)

lemma allclose_zero_less_one:
  assumes "allclose m 0"
  shows "m < 1"
proof (rule ccontr)
  assume "\<not> m < 1"
  then have "1 \<le> fl m" by (intro fl_ge_one) simp
  moreover have "fl (atol + fl (rtol * \<bar>0::real\<bar>)) \<le> 1 / 2 ^ 13"
    by (rule tolerance_bounds) simp
  ultimately show False using assms by (simp add: allclose_def)
qed

lemma not_allclose_zero: "1 \<le> m \<Longrightarrow> \<not> allclose m 0"
  using allclose_zero_less_one[of m] by auto


lemma np_mod_zero: "np_mod 0 m = 0"
  by (simp add: np_mod_def fmod_def)

lemma np_mod_small: "0 \<le> x \<Longrightarrow> x < m \<Longrightarrow> np_mod x m = x"
proof -
  assume a: "0 \<le> x" "x < m"
  then have "0 \<le> x / m" "x / m < 1" by simp_all
  then have "\<lfloor>x / m\<rfloor> = 0" by (simp add: floor_eq_iff)
  with \<open>0 \<le> x / m\<close> have "fmod x m = x" by (simp add: fmod_def)
  then show ?thesis using a by (simp add: np_mod_def)
qed

lemma one_not_zero: "\<not> allclose (np_mod 1 (2 * np_pi)) 0"
  using np_pi_bounds by (simp add: np_mod_small not_allclose_zero)


text \<open>The float \<open>22 * np.pi\<close>: the product is a tie between two binary64 numbers and is rounded to
  the even one. Its remainder modulo the float \<open>2 * np.pi\<close> is just below the modulus.\<close>

lemma fl_22_pi: "fl (22 * np_pi) = 18998197087967 / 2 ^ 38"
proof -
  let ?x = "22 * np_pi :: real"
  have pos: "0 < ?x" by (simp add: np_pi_def)
  have "2 powr 6 \<le> ?x" by (simp add: np_pi_def)
  with le_log_iff[of 2 ?x 6] pos have l: "6 \<le> log 2 ?x" by simp
  have "?x < 2 powr 7" by (simp add: np_pi_def)
  with log_less_iff[of 2 ?x 7] pos have u: "log 2 ?x < 7" by simp
  have e: "\<lfloor>log 2 \<bar>?x\<bar>\<rfloor> = 6" using l u pos by (simp add: floor_eq_iff)
  have "ulp ?x = 2 powr (of_int 6 - 52)" unfolding ulp_def e by simp
  also have "\<dots> = 2 powr (- 46)" by simp
  also have "\<dots> = 1 / 2 ^ 46" by (simp add: powr_minus_divide)
  finally have ul: "ulp ?x = 1 / 2 ^ 46" .
  have q: "?x / ulp ?x = 9727076909039105 / 2" unfolding ul by (simp add: np_pi_def)
  have f: "\<lfloor>9727076909039105 / 2 :: real\<rfloor> = 4863538454519552" by (simp add: floor_eq_iff)
  have r: "round_even (9727076909039105 / 2) = 4863538454519552"
    unfolding round_even_def f by simp
  have "fl ?x = ulp ?x * of_int (round_even (?x / ulp ?x))" using pos by (simp add: fl_def)
  also have "\<dots> = ulp ?x * of_int 4863538454519552" by (simp only: q r)
  also have "\<dots> = 1 / 2 ^ 46 * of_int 4863538454519552" by (simp only: ul)
  also have "\<dots> = 18998197087967 / 2 ^ 38" by simp
  finally show ?thesis .
qed

lemma float_22_pi: "\<not> allclose (np_mod (18998197087967 / 2 ^ 38) (2 * np_pi)) 0"
proof -
  let ?x = "18998197087967 / 2 ^ 38 :: real"
  have q: "\<lfloor>?x / (2 * np_pi)\<rfloor> = 10" by (simp add: np_pi_def floor_eq_iff)
  have "fmod ?x (2 * np_pi) = ?x - 2 * np_pi * 10"
    unfolding fmod_def q by (simp add: np_pi_def)
  moreover have "1 \<le> ?x - 2 * np_pi * 10" by (simp add: np_pi_def)
  ultimately have "np_mod ?x (2 * np_pi) = ?x - 2 * np_pi * 10" "1 \<le> np_mod ?x (2 * np_pi)"
    using np_pi_bounds by (simp_all add: np_mod_def)
  then show ?thesis by (simp add: not_allclose_zero)
qed

subsection \<open>Wires, parameters and simplification\<close>

lemma intersection_iff: "intersection ws vs \<longleftrightarrow> set ws \<inter> set vs \<noteq> {}"
  by (auto simp: intersection_def filter_empty_conv)

lemma intersection_commute: "intersection ws vs = intersection vs ws"
  by (auto simp: intersection_iff)

lemma float_three:
  "length xs = 3 \<Longrightarrow> list_all is_float xs \<Longrightarrow>
     \<exists>x y z. xs = [FloatParam x, FloatParam y, FloatParam z]"
  by (cases xs; simp; cases "tl xs"; simp; cases "tl (tl xs)"; auto simp: is_float_def)

lemma float_two:
  "length xs = 2 \<Longrightarrow> list_all is_float xs \<Longrightarrow> \<exists>x y. xs = [FloatParam x, FloatParam y]"
  by (cases xs; simp; cases "tl xs"; auto simp: is_float_def)

text \<open>The unfoldings that evaluate \<open>is_commuting\<close> on operations without rotations to
  simplify.\<close>

lemmas commuting_eval =
  is_commuting_def not_supported_def not_supported_operations_def maybe_simplify_def
  rotation_names_def commuting_simplified_def implements_identity_def intersection_def
  uncontrolled_op_def all_zeros_def np_mod_zero allclose_0_0 barrier_names_def
  well_formed_def has_zero_parameters_def real_parameters_def

lemma simplify_rotation_ok:
  assumes "length (data a) = 3" "list_all is_float (data a)" "name a = ''Rot''"
  shows "\<exists>a'. simplify_rotation a = Inr a' \<and> simplified_from a a'"
proof -
  obtain x y z where d: "data a = [FloatParam x, FloatParam y, FloatParam z]"
    using float_three[OF assms(1,2)] by blast
  show ?thesis
    by (simp add: simplify_rotation_def d close_at_def close_mod_def add_param_def list_get_def
        and_then_def simplified_from_def uncontrolled_op_def barrier_names_def assms(3)
        split: bool.splits)
qed

lemma simplify_controlled_rotation_ok:
  assumes "length (data a) = 3" "list_all is_float (data a)" "name a = ''CRot''"
    and "set (control_wires a) \<union> set (target_wires a) = set (wires a)"
  shows "\<exists>a'. simplify_controlled_rotation a = Inr a' \<and> simplified_from a a'"
proof -
  obtain x y z where d: "data a = [FloatParam x, FloatParam y, FloatParam z]"
    using float_three[OF assms(1,2)] by blast
  show ?thesis
    by (simp add: simplify_controlled_rotation_def d close_at_def close_mod_def add_param_def
        list_get_def and_then_def simplified_from_def controlled_op_def ctrl_hadamard_def
        barrier_names_def assms(3,4) split: bool.splits)
qed

lemma simplify_u3_ok:
  assumes "length (data a) = 3" "list_all is_float (data a)" "name a = ''U3''"
  shows "\<exists>a'. simplify_u3 a = Inr a' \<and> simplified_from a a'"
proof -
  obtain x y z where d: "data a = [FloatParam x, FloatParam y, FloatParam z]"
    using float_three[OF assms(1,2)] by blast
  show ?thesis
    by (simp add: simplify_u3_def d close_at_def close_sum_at_def close_mod_def add_param_def
        not_res_def list_get_def and_then_def simplified_from_def uncontrolled_op_def
        barrier_names_def assms(3) split: bool.splits)
qed

lemma simplify_u2_ok:
  assumes "length (data a) = 2" "list_all is_float (data a)" "name a = ''U2''"
  shows "\<exists>a'. simplify_u2 a = Inr a' \<and> simplified_from a a'"
proof -
  obtain x y where d: "data a = [FloatParam x, FloatParam y]"
    using float_two[OF assms(1,2)] by blast
  show ?thesis
    by (simp add: simplify_u2_def d close_at_def close_sum_at_def close_mod_def add_param_def
        list_get_def and_then_def simplified_from_def uncontrolled_op_def barrier_names_def
        assms(3) split: bool.splits)
qed

lemma maybe_simplify_ok:
  assumes "well_formed a"
  shows "\<exists>a'. maybe_simplify a = Inr (Some a') \<and> simplified_from a a'"
proof (cases "name a \<in> set rotation_names")
  case False
  with assms show ?thesis
    by (auto simp: maybe_simplify_def simplified_from_def well_formed_def)
next
  case True
  then consider "name a = ''Rot''" | "name a = ''U2''" | "name a = ''U3''" | "name a = ''CRot''"
    by (auto simp: rotation_names_def)
  then show ?thesis
  proof cases
    case 1
    with assms simplify_rotation_ok[of a] show ?thesis
      by (auto simp: maybe_simplify_def simplify_def rotation_names_def well_formed_def)
  next
    case 2
    with assms simplify_u2_ok[of a] show ?thesis
      by (auto simp: maybe_simplify_def simplify_def rotation_names_def well_formed_def)
  next
    case 3
    with assms simplify_u3_ok[of a] show ?thesis
      by (auto simp: maybe_simplify_def simplify_def rotation_names_def well_formed_def)
  next
    case 4
    with assms simplify_controlled_rotation_ok[of a] show ?thesis
      by (auto simp: maybe_simplify_def simplify_def rotation_names_def well_formed_def)
  qed
qed


lemma is_commuting_simplified:
  assumes "\<not> not_supported a" "\<not> not_supported b"
    and "maybe_simplify a = Inr (Some a')" "maybe_simplify b = Inr (Some b')"
  shows "is_commuting a b = commuting_simplified a' b'"
  using assms by (simp add: is_commuting_def)

lemma is_commuting_Inr_supported:
  "is_commuting a b = Inr x \<Longrightarrow> \<not> not_supported a \<and> \<not> not_supported b"
  by (auto simp: is_commuting_def split: if_splits)

lemma commuting_simplified_named:
  assumes "name a' \<noteq> []"
  shows "commuting_simplified a' b' =
     (case implements_identity a' of
        Inl e \<Rightarrow> Inl e
      | Inr True \<Rightarrow> Inr (name b' \<notin> set barrier_names)
      | Inr False \<Rightarrow>
          (case implements_identity b' of
             Inl e \<Rightarrow> Inl e
           | Inr True \<Rightarrow> Inr (name a' \<notin> set barrier_names)
           | Inr False \<Rightarrow> Inr (\<not> intersection (wires a') (wires b'))))"
  using assms by (simp add: commuting_simplified_def split: sum.splits bool.splits)

lemma implements_identity_real:
  "list_all is_float (data a) \<Longrightarrow> \<exists>r. implements_identity a = Inr r"
  by (auto simp: implements_identity_def all_zeros_def)

lemma implements_identity_not_barrier:
  "simplified_from a a' \<Longrightarrow> implements_identity a' = Inr True \<Longrightarrow>
     name a' \<notin> set barrier_names"
  by (auto simp: simplified_from_def implements_identity_def split: if_splits)

text \<open>When the two calls return, they return the same boolean.\<close>

lemma is_commuting_agree:
  assumes "well_formed a" "well_formed b"
    and "is_commuting a b = Inr x" "is_commuting b a = Inr y"
  shows "x = y"
proof -
  from is_commuting_Inr_supported[OF assms(3)] have sup: "\<not> not_supported a" "\<not> not_supported b"
    by simp_all
  from maybe_simplify_ok[OF assms(1)] obtain a'
    where a': "maybe_simplify a = Inr (Some a')" "simplified_from a a'" by blast
  from maybe_simplify_ok[OF assms(2)] obtain b'
    where b': "maybe_simplify b = Inr (Some b')" "simplified_from b b'" by blast
  have na: "name a' \<noteq> []" and nb: "name b' \<noteq> []"
    using a' b' by (simp_all add: simplified_from_def)
  note ia = implements_identity_not_barrier[OF a'(2)]
    and ib = implements_identity_not_barrier[OF b'(2)]
  have ab: "commuting_simplified a' b' = Inr x"
    using assms(3) sup a' b' by (simp add: is_commuting_simplified)
  have ba: "commuting_simplified b' a' = Inr y"
    using assms(4) sup a' b' by (simp add: is_commuting_simplified)
  from ab ba ia ib show ?thesis
    unfolding commuting_simplified_named[OF na] commuting_simplified_named[OF nb]
    by (auto simp: intersection_commute split: sum.splits bool.splits)
qed

text \<open>On supported, well-formed operations with real parameters the test returns a boolean,
  the same one in both orders.\<close>

lemma is_commuting_returns:
  assumes "well_formed a" "well_formed b" "\<not> not_supported a" "\<not> not_supported b"
    and "real_parameters a" "real_parameters b"
  shows "\<exists>r. is_commuting a b = Inr r \<and> is_commuting b a = Inr r"
proof -
  from maybe_simplify_ok[OF assms(1)] obtain a'
    where a': "maybe_simplify a = Inr (Some a')" "simplified_from a a'" by blast
  from maybe_simplify_ok[OF assms(2)] obtain b'
    where b': "maybe_simplify b = Inr (Some b')" "simplified_from b b'" by blast
  have na: "name a' \<noteq> []" and nb: "name b' \<noteq> []"
    using a' b' by (simp_all add: simplified_from_def)
  have "list_all is_float (data a')" "list_all is_float (data b')"
    using a'(2) b'(2) assms(5,6) by (simp_all add: simplified_from_def real_parameters_def)
  then obtain ra rb where r: "implements_identity a' = Inr ra" "implements_identity b' = Inr rb"
    using implements_identity_real by blast
  have "\<exists>x. is_commuting a b = Inr x"
    using assms(3,4) a' b' r
    by (simp add: is_commuting_simplified commuting_simplified_named[OF na] split: bool.splits)
  moreover have "\<exists>y. is_commuting b a = Inr y"
    using assms(3,4) a' b' r
    by (simp add: is_commuting_simplified commuting_simplified_named[OF nb] split: bool.splits)
  ultimately show ?thesis using is_commuting_agree[OF assms(1,2)] by blast
qed




subsection \<open>Table lookup (claim C2)\<close>

text \<open>
  Claim C2: for supported, non-controlled operations of kinds in the table, on intersecting
  wires and with parameters not all zero, \<open>is_commuting\<close> returns the table entry, for example
  \<open>True\<close> for \<open>PauliZ(0)\<close> and \<open>S(0)\<close>. The code does not: the table entry for
  \<open>(PauliZ, S)\<close> is 1, and \<open>is_commuting\<close> returns \<open>False\<close> on these two operations, because
  the test against \<open>non_commuting_operations\<close> succeeds for every non-empty first name.
\<close>

theorem table_entry_ignored_PauliZ_S:
  "table_bool ''PauliZ'' ''S'' = Inr True \<and>
   is_commuting (uncontrolled_op ''PauliZ'' [] [IntLabel 0])
                (uncontrolled_op ''S'' [] [IntLabel 0]) = Inr False"
  by (simp add: commuting_eval table_bool_def table_entry_def dict_get_def list_get_def
      commutation_map_def position_def)

subsection \<open>Overlapping wires (claim C3)\<close>




subsection \<open>Disjoint wires (claim C4)\<close>




subsection \<open>Symmetry (claim C5)\<close>

text \<open>
  Claim C5: for supported operations \<open>a\<close> and \<open>b\<close>, on which \<open>is_commuting\<close> does not raise,
  \<open>is_commuting(a, b) == is_commuting(b, a)\<close>. Whenever the two calls return, they return the
  same boolean; and on well-formed supported operations with real parameters neither call
  raises, and the two results are equal.
\<close>

theorem is_commuting_symmetric:
  assumes "well_formed a" "well_formed b" "\<not> not_supported a" "\<not> not_supported b"
  shows "(\<forall>x y. is_commuting a b = Inr x \<and> is_commuting b a = Inr y \<longrightarrow> x = y) \<and>
         (real_parameters a \<and> real_parameters b \<longrightarrow>
            is_commuting a b = is_commuting b a \<and> (\<exists>r. is_commuting a b = Inr r))"
proof (rule conjI)
  show "\<forall>x y. is_commuting a b = Inr x \<and> is_commuting b a = Inr y \<longrightarrow> x = y"
    using is_commuting_agree[OF assms(1,2)] by blast
  show "real_parameters a \<and> real_parameters b \<longrightarrow>
          is_commuting a b = is_commuting b a \<and> (\<exists>r. is_commuting a b = Inr r)"
    using is_commuting_returns[OF assms] by auto
qed

theorem is_commuting_symmetric_witness:
  "is_commuting (uncontrolled_op ''RX'' [FloatParam 0] [IntLabel 0])
                (uncontrolled_op ''Barrier'' [] [IntLabel 0, IntLabel 1])
   = is_commuting (uncontrolled_op ''Barrier'' [] [IntLabel 0, IntLabel 1])
                  (uncontrolled_op ''RX'' [FloatParam 0] [IntLabel 0]) \<and>
   (\<exists>r. is_commuting (uncontrolled_op ''RX'' [FloatParam 0] [IntLabel 0])
                       (uncontrolled_op ''Barrier'' [] [IntLabel 0, IntLabel 1]) = Inr r)"
proof -
  have wf: "well_formed (uncontrolled_op ''RX'' [FloatParam 0] [IntLabel 0])"
    "well_formed (uncontrolled_op ''Barrier'' [] [IntLabel 0, IntLabel 1])"
    by (simp_all add: well_formed_def barrier_names_def rotation_names_def uncontrolled_op_def)
  have sup: "\<not> not_supported (uncontrolled_op ''RX'' [FloatParam 0] [IntLabel 0])"
    "\<not> not_supported (uncontrolled_op ''Barrier'' [] [IntLabel 0, IntLabel 1])"
    by (simp_all add: not_supported_def not_supported_operations_def uncontrolled_op_def)
  have re: "real_parameters (uncontrolled_op ''RX'' [FloatParam 0] [IntLabel 0]) \<and>
    real_parameters (uncontrolled_op ''Barrier'' [] [IntLabel 0, IntLabel 1])"
    by (simp add: real_parameters_def uncontrolled_op_def)
  from is_commuting_symmetric[OF wf sup, THEN conjunct2, rule_format, OF re] show ?thesis .
qed

text \<open>The two orders need not raise together: the parameters of the first operand are tested
  first, and the test of the second is skipped when the first has parameters that are all
  zero.\<close>

lemma is_commuting_raises_in_one_order:
  "is_commuting (uncontrolled_op ''RX'' [FloatParam 0] [IntLabel 0])
                (uncontrolled_op ''QubitUnitary'' [ComplexParam] [IntLabel 0]) = Inr True \<and>
   is_commuting (uncontrolled_op ''QubitUnitary'' [ComplexParam] [IntLabel 0])
                (uncontrolled_op ''RX'' [FloatParam 0] [IntLabel 0]) = Inl TypeError"
  by (simp add: commuting_eval)

subsection \<open>Symmetry of the table (claim C6)\<close>

text \<open>
  Claim C6: the lookup table is symmetric, \<open>commutation_map[k1][position[k2]] ==
  commutation_map[k2][position[k1]]\<close> for all kinds of \<open>position\<close>, in particular for
  \<open>(SX, RZ)\<close> and for \<open>(RX, SX)\<close>. The table is not: the row of \<open>SX\<close> has 1 at \<open>RZ\<close> and 0 at
  \<open>RX\<close>, the rows of \<open>RZ\<close> and \<open>RX\<close> have 0 and 1 at \<open>SX\<close>.
\<close>

theorem commutation_map_SX_asymmetric:
  "table_entry ''SX'' ''RZ'' = Inr 1 \<and> table_entry ''RZ'' ''SX'' = Inr 0 \<and>
   table_entry ''SX'' ''RX'' = Inr 0 \<and> table_entry ''RX'' ''SX'' = Inr 1"
  by (simp add: table_entry_def dict_get_def list_get_def commutation_map_def position_def)

subsection \<open>Parameters that are all zero (claim C7)\<close>


text \<open>
  The test of the parameters is \<open>np.allclose(np.mod(data, 2 * np.pi), 0)\<close> in binary64
  arithmetic, where the modulus is the float \<open>2 * np.pi\<close>. The float \<open>22 * np.pi\<close> does not
  pass it: its remainder is just below \<open>2 * np.pi\<close>.
\<close>

lemma is_commuting_RX_22_pi:
  "is_commuting (uncontrolled_op ''RX'' [FloatParam (fl (22 * np_pi))] [IntLabel 0])
                (uncontrolled_op ''PauliX'' [] [IntLabel 0]) = Inr False"
  using float_22_pi
  by (simp add: fl_22_pi is_commuting_def not_supported_def not_supported_operations_def
      maybe_simplify_def rotation_names_def commuting_simplified_def implements_identity_def
      intersection_def uncontrolled_op_def all_zeros_def)



subsection \<open>Unsupported operations (claim C9)\<close>

text \<open>
  Claim C9: when an operand is a continuous-variable operation, a channel or one of the named
  templates of the deny list, among them \<open>ArbitraryUnitary\<close> and \<open>CommutingEvolution\<close>,
  \<open>is_commuting\<close> raises an error that names the operation. The deny list holds the single
  string \<open>ArbitraryUnitaryCommutingEvolution\<close> in place of these two names, so an
  \<open>ArbitraryUnitary\<close> is not rejected: the test returns \<open>False\<close> for it and a \<open>PauliX\<close> on
  the same wire.
\<close>

theorem ArbitraryUnitary_not_rejected:
  "\<not> not_supported
       (uncontrolled_op ''ArbitraryUnitary'' [FloatParam 1, FloatParam 1, FloatParam 1]
          [IntLabel 0]) \<and>
   \<not> not_supported
       (uncontrolled_op ''CommutingEvolution'' [FloatParam 1, FloatParam 1] [IntLabel 0]) \<and>
   is_commuting
     (uncontrolled_op ''ArbitraryUnitary'' [FloatParam 1, FloatParam 1, FloatParam 1]
        [IntLabel 0])
     (uncontrolled_op ''PauliX'' [] [IntLabel 0]) = Inr False"
  using one_not_zero by (simp add: commuting_eval)

section \<open>Properties of the DAG builder\<close>

subsection \<open>Elementary facts\<close>

lemma get_node_Inr_iff: "get_node d i = Inr nd \<longleftrightarrow> i < length (nodes d) \<and> nd = nodes d ! i"
  by (auto simp: get_node_def)

lemma put_node_simps [simp]:
  "edges (put_node d i nd) = edges d"
  "nodes (put_node d i nd) = (nodes d)[i := nd]"
  by (simp_all add: put_node_def)

lemma add_edge_simps [simp]:
  "edges (add_edge d a b) = edges d @ [(a, b)]"
  "nodes (add_edge d a b) = nodes d"
  by (simp_all add: add_edge_def)

lemma set_reachable_frame:
  "set_reachable b ids d = Inr d' \<Longrightarrow>
     edges d' = edges d \<and> length (nodes d') = length (nodes d)"
  by (induction ids arbitrary: d) (auto split: sum.splits)

lemma pred_update_frame:
  "pred_update d i = Inr d' \<Longrightarrow> edges d' = edges d \<and> length (nodes d') = length (nodes d)"
  by (auto simp: pred_update_def Let_def split: sum.splits)

text \<open>The unfoldings that evaluate the builder on a concrete list of operations.\<close>

lemmas dag_eval =
  add_node_def dag_add_node_def new_node_def update_edges_def get_node_def ctrl_kind_def
  init_dag_def put_node_def add_edge_def pred_update_def direct_predecessors_def
  merge_no_duplicates_def heapq_merge.simps heads_def Let_def

lemma PauliX_PauliZ_same_wire:
  "is_commuting (uncontrolled_op ''PauliX'' [] [IntLabel 0])
                (uncontrolled_op ''PauliZ'' [] [IntLabel 0]) = Inr False"
  by (simp add: commuting_eval)

subsection \<open>Edges go forward (claim C8)\<close>

lemma scan_prev_edges:
  "scan_prev p n mx d = Inr d' \<Longrightarrow> p \<le> n \<Longrightarrow>
     length (nodes d') = length (nodes d) \<and>
     set (edges d') \<subseteq> set (edges d) \<union> {(i, n) | i. i < p}"
proof (induction p arbitrary: d)
  case 0
  then show ?case by simp
next
  case (Suc p)
  from Suc.prems(1) obtain prev where prev: "get_node d p = Inr prev"
    by (auto split: sum.splits)
  show ?case
  proof (cases "reachable prev = Some True")
    case False
    with Suc.prems prev have "scan_prev p n mx d = Inr d'" by simp
    from Suc.IH[OF this] Suc.prems(2) show ?thesis by auto
  next
    case True
    with Suc.prems prev obtain c where c: "is_commuting (op prev) mx = Inr c"
      by (auto split: sum.splits)
    show ?thesis
    proof (cases c)
      case True
      with Suc.prems prev c \<open>reachable prev = Some True\<close>
      have "scan_prev p n mx d = Inr d'" by simp
      from Suc.IH[OF this] Suc.prems(2) show ?thesis by auto
    next
      case False
      with Suc.prems prev c \<open>reachable prev = Some True\<close>
      obtain d1 m d2 where
        d1: "pred_update (add_edge d p n) n = Inr d1" and
        m: "get_node d1 n = Inr m" and
        d2: "set_reachable False (predecessors m) d1 = Inr d2" and
        rest: "scan_prev p n mx d2 = Inr d'"
        by (auto split: sum.splits)
      from pred_update_frame[OF d1] set_reachable_frame[OF d2]
      have fr: "edges d2 = edges d @ [(p, n)]" "length (nodes d2) = length (nodes d)"
        by simp_all
      from Suc.IH[OF rest] Suc.prems(2) fr show ?thesis by auto
    qed
  qed
qed

lemma update_edges_forward:
  assumes "update_edges d = Inr d'"
    and "list_all (\<lambda>e. fst e < snd e \<and> snd e < length (nodes d)) (edges d)"
  shows "forward_edges d'"
proof -
  from assms(1) have ne: "nodes d \<noteq> []"
    by (auto simp: update_edges_def split: if_splits)
  let ?n = "length (nodes d) - 1"
  from assms(1) ne have "\<exists>mx d1. set_reachable True [0..<?n] d = Inr d1 \<and>
      scan_prev ?n ?n mx d1 = Inr d'"
    by (auto simp: update_edges_def Let_def simp del: One_nat_def split: sum.splits)
  then obtain mx d1 where
    d1: "set_reachable True [0..<?n] d = Inr d1" and
    sc: "scan_prev ?n ?n mx d1 = Inr d'" by blast
  from scan_prev_edges[OF sc] set_reachable_frame[OF d1]
  have "length (nodes d') = length (nodes d)"
    "set (edges d') \<subseteq> set (edges d) \<union> {(i, ?n) | i. i < ?n}" by simp_all
  with assms(2) ne show ?thesis
    by (fastforce simp: forward_edges_def list_all_iff)
qed

lemma add_node_forward:
  assumes "forward_edges d" "add_node d operation = Inr d'"
  shows "forward_edges d'"
proof -
  have "list_all (\<lambda>e. fst e < snd e \<and>
            snd e < length (nodes (dag_add_node d (new_node operation))))
          (edges (dag_add_node d (new_node operation)))"
    using assms(1) by (auto simp: forward_edges_def dag_add_node_def list_all_iff)
  from update_edges_forward[OF assms(2)[unfolded add_node_def] this] show ?thesis .
qed

lemma add_nodes_forward:
  "forward_edges d \<Longrightarrow> add_nodes d ops = Inr d' \<Longrightarrow> forward_edges d'"
  by (induction ops arbitrary: d) (auto split: sum.splits dest: add_node_forward)

lemma forward_edges_init: "forward_edges (init_dag ws obs)"
  by (simp add: forward_edges_def init_dag_def)

lemma forward_edges_acyclic:
  assumes "forward_edges d"
  shows "acyclic (set (edges d))"
proof -
  have "set (edges d) \<subseteq> {(i, j). i < j}"
    using assms by (auto simp: forward_edges_def list_all_iff)
  moreover have "acyclic {(i :: nat, j). i < j}"
    by (rule wf_acyclic) (rule wf_less)
  ultimately show ?thesis by (rule acyclic_subset[rotated])
qed

text \<open>
  Claim C8: every edge ever added to the commutation DAG goes from a strictly lower node id to
  a strictly higher one, so the edge relation has no cycle, and every \<open>add_node\<close> call
  preserves this. Stated for any number of \<open>add_node\<close> calls that return, from any DAG whose
  edges go forward; the DAG of \<open>CommutationDAG.__init__\<close> is one.
\<close>

theorem add_nodes_forward_acyclic:
  assumes "forward_edges d" "add_nodes d ops = Inr d'"
  shows "forward_edges d' \<and> acyclic (set (edges d'))"
  using add_nodes_forward[OF assms] forward_edges_acyclic by blast

theorem add_nodes_forward_acyclic_witness:
  "forward_edges (init_dag [IntLabel 0] []) \<and>
   (\<exists>d'. add_nodes (init_dag [IntLabel 0] [])
            [uncontrolled_op ''PauliX'' [] [IntLabel 0],
             uncontrolled_op ''PauliZ'' [] [IntLabel 0]] = Inr d' \<and>
          edges d' = [(0, 1)] \<and> forward_edges d' \<and> acyclic (set (edges d')))"
proof -
  have f: "forward_edges (init_dag [IntLabel 0] [])"
    by (rule forward_edges_init)
  have "\<exists>d'. add_nodes (init_dag [IntLabel 0] [])
            [uncontrolled_op ''PauliX'' [] [IntLabel 0],
             uncontrolled_op ''PauliZ'' [] [IntLabel 0]] = Inr d' \<and> edges d' = [(0, 1)]"
    by (simp add: dag_eval PauliX_PauliZ_same_wire)
  then obtain d' where d': "add_nodes (init_dag [IntLabel 0] [])
            [uncontrolled_op ''PauliX'' [] [IntLabel 0],
             uncontrolled_op ''PauliZ'' [] [IntLabel 0]] = Inr d'" "edges d' = [(0, 1)]"
    by blast
  from add_nodes_forward_acyclic[OF f d'(1)] f d' show ?thesis by blast
qed

subsection \<open>The merge\<close>

lemma heads_empty: "heads ls = [] \<Longrightarrow> \<Union> (set ` set ls) = {}"
  by (auto simp: heads_def filter_empty_conv)

lemma drop_first_set:
  "m \<in> set (heads ls) \<Longrightarrow> insert m (\<Union> (set ` set (drop_first m ls))) = \<Union> (set ` set ls)"
  by (induction m ls rule: drop_first.induct) (auto simp: heads_def)

lemma set_heapq_merge: "set (heapq_merge ls) = \<Union> (set ` set ls)"
proof (induction ls rule: heapq_merge.induct)
  case (1 ls)
  show ?case
  proof (cases "heads ls = []")
    case True
    then show ?thesis by (simp add: heapq_merge.simps[of ls] heads_empty)
  next
    case False
    then have m: "Min (set (heads ls)) \<in> set (heads ls)" by (intro Min_in) auto
    from 1[OF False] drop_first_set[OF m] False show ?thesis
      by (simp add: heapq_merge.simps[of ls])
  qed
qed

lemma set_merge_no_duplicates: "set (merge_no_duplicates ls) = \<Union> (set ` set ls)"
  by (simp add: merge_no_duplicates_def set_heapq_merge)

subsection \<open>Steps of the builder\<close>

lemma pred_lists_ok:
  "\<forall>a\<in>set dps. a < length (nodes d) \<Longrightarrow>
    \<exists>ls. pred_lists d dps = Inr ls \<and>
      \<Union> (set ` set ls) = (\<Union>a\<in>set dps. insert a (set (predecessors (nodes d ! a))))"
  by (induction dps) (auto simp: get_node_def)

lemma pred_update_ok:
  assumes "n < length (nodes d)" "\<forall>e\<in>set (edges d). snd e = n \<longrightarrow> fst e < n"
  shows "\<exists>P. pred_update d n = Inr (put_node d n ((nodes d ! n)\<lparr>predecessors := P\<rparr>)) \<and>
     set P = (\<Union>a\<in>{a. (a, n) \<in> set (edges d)}. insert a (set (predecessors (nodes d ! a))))"
proof -
  let ?nd = "nodes d ! n"
  let ?d0 = "put_node d n (?nd\<lparr>predecessors := []\<rparr>)"
  let ?dps = "sort (remdups (map fst (filter (\<lambda>e. snd e = n) (edges d))))"
  have dps: "set ?dps = {a. (a, n) \<in> set (edges d)}" by force
  have dp: "direct_predecessors ?d0 n = Inr ?dps"
    using assms(1) by (simp add: direct_predecessors_def)
  have lt: "\<forall>a\<in>set ?dps. a < n" using assms(2) unfolding dps by auto
  then have "\<forall>a\<in>set ?dps. a < length (nodes ?d0)" using assms(1) by auto
  from pred_lists_ok[OF this] obtain ls where ls: "pred_lists ?d0 ?dps = Inr ls"
    "\<Union> (set ` set ls) = (\<Union>a\<in>set ?dps. insert a (set (predecessors (nodes ?d0 ! a))))" by blast
  have same: "\<And>a. a \<in> set ?dps \<Longrightarrow> predecessors (nodes ?d0 ! a) = predecessors (nodes d ! a)"
    using lt by auto
  have "pred_update d n = Inr (put_node ?d0 n (?nd\<lparr>predecessors := merge_no_duplicates ls\<rparr>))"
    using assms(1) dp ls(1) by (simp add: pred_update_def get_node_def Let_def)
  moreover have "put_node ?d0 n (?nd\<lparr>predecessors := merge_no_duplicates ls\<rparr>)
      = put_node d n (?nd\<lparr>predecessors := merge_no_duplicates ls\<rparr>)"
    by (simp add: put_node_def)
  moreover have "set (merge_no_duplicates ls)
     = (\<Union>a\<in>{a. (a, n) \<in> set (edges d)}. insert a (set (predecessors (nodes d ! a))))"
    unfolding set_merge_no_duplicates ls(2) using same dps by auto
  ultimately show ?thesis by auto
qed

lemma set_reachable_ok:
  "\<forall>i\<in>set ids. i < length (nodes d) \<Longrightarrow>
    \<exists>d'. set_reachable b ids d = Inr d' \<and> edges d' = edges d \<and>
      length (nodes d') = length (nodes d) \<and>
      (\<forall>i<length (nodes d). op (nodes d' ! i) = op (nodes d ! i) \<and>
          predecessors (nodes d' ! i) = predecessors (nodes d ! i) \<and>
          reachable (nodes d' ! i) = (if i \<in> set ids then Some b else reachable (nodes d ! i)))"
proof (induction ids arbitrary: d)
  case Nil
  then show ?case by simp
next
  case (Cons i ids)
  let ?d1 = "put_node d i ((nodes d ! i)\<lparr>reachable := Some b\<rparr>)"
  from Cons.prems have i: "i < length (nodes d)" and "\<forall>k\<in>set ids. k < length (nodes ?d1)" by auto
  from Cons.IH[OF this(2)] obtain d' where d': "set_reachable b ids ?d1 = Inr d'"
    "edges d' = edges ?d1" "length (nodes d') = length (nodes ?d1)"
    "\<forall>k<length (nodes ?d1). op (nodes d' ! k) = op (nodes ?d1 ! k) \<and>
          predecessors (nodes d' ! k) = predecessors (nodes ?d1 ! k) \<and>
          reachable (nodes d' ! k) = (if k \<in> set ids then Some b else reachable (nodes ?d1 ! k))"
    by blast
  have "set_reachable b (i # ids) d = Inr d'" using i d'(1) by (simp add: get_node_def)
  moreover have "\<forall>k<length (nodes d). op (nodes d' ! k) = op (nodes d ! k) \<and>
          predecessors (nodes d' ! k) = predecessors (nodes d ! k) \<and>
          reachable (nodes d' ! k) = (if k \<in> set (i # ids) then Some b else reachable (nodes d ! k))"
  proof (intro allI impI)
    fix k assume k: "k < length (nodes d)"
    with d'(4) have "op (nodes d' ! k) = op (nodes ?d1 ! k) \<and>
          predecessors (nodes d' ! k) = predecessors (nodes ?d1 ! k) \<and>
          reachable (nodes d' ! k) = (if k \<in> set ids then Some b else reachable (nodes ?d1 ! k))"
      by simp
    then show "op (nodes d' ! k) = op (nodes d ! k) \<and>
          predecessors (nodes d' ! k) = predecessors (nodes d ! k) \<and>
          reachable (nodes d' ! k) = (if k \<in> set (i # ids) then Some b else reachable (nodes d ! k))"
      using k by (cases "k = i") auto
  qed
  ultimately show ?case using d'(2,3) by auto
qed

lemma forward_trancl:
  assumes "\<forall>e\<in>E. fst e < (snd e :: nat)" "(a, b) \<in> E\<^sup>+"
  shows "a < b"
  using assms(2)
proof (induction rule: trancl_induct)
  case (base y) with assms(1) show ?case by force
next
  case (step y z) with assms(1) show ?case by force
qed

subsection \<open>The loop of \<open>_update_edges\<close>\<close>

lemma scan_invD:
  assumes "scan_inv ops n p d"
  shows "length ops = Suc n"
    and "map op (nodes d) = ops"
    and "\<forall>e\<in>set (edges d). fst e < snd e \<and> snd e \<le> n \<and> non_commuting ops (fst e) (snd e)"
    and "\<forall>j<n. \<forall>i<j. non_commuting ops i j \<longrightarrow> i \<in> set (predecessors (nodes d ! j))"
    and "\<forall>j<n. \<forall>i\<in>set (predecessors (nodes d ! j)). (i, j) \<in> (set (edges d))\<^sup>+"
    and "\<forall>i<n. p \<le> i \<longrightarrow> non_commuting ops i n \<longrightarrow> i \<in> set (predecessors (nodes d ! n))"
    and "set (predecessors (nodes d ! n)) =
        (\<Union>a\<in>{a. (a, n) \<in> set (edges d)}. insert a (set (predecessors (nodes d ! a))))"
    and "\<forall>i<n. reachable (nodes d ! i) = Some True \<or> i \<in> set (predecessors (nodes d ! n))"
proof -
  note s1 = assms[unfolded scan_inv_def]
  note s2 = s1[THEN conjunct2]
  note s3 = s2[THEN conjunct2]
  note s4 = s3[THEN conjunct2]
  note s5 = s4[THEN conjunct2]
  note s6 = s5[THEN conjunct2]
  note s7 = s6[THEN conjunct2]
  show "length ops = Suc n" by (rule s1[THEN conjunct1])
  show "map op (nodes d) = ops" by (rule s2[THEN conjunct1])
  show "\<forall>e\<in>set (edges d). fst e < snd e \<and> snd e \<le> n \<and> non_commuting ops (fst e) (snd e)"
    by (rule s3[THEN conjunct1])
  show "\<forall>j<n. \<forall>i<j. non_commuting ops i j \<longrightarrow> i \<in> set (predecessors (nodes d ! j))"
    by (rule s4[THEN conjunct1])
  show "\<forall>j<n. \<forall>i\<in>set (predecessors (nodes d ! j)). (i, j) \<in> (set (edges d))\<^sup>+"
    by (rule s5[THEN conjunct1])
  show "\<forall>i<n. p \<le> i \<longrightarrow> non_commuting ops i n \<longrightarrow> i \<in> set (predecessors (nodes d ! n))"
    by (rule s6[THEN conjunct1])
  show "set (predecessors (nodes d ! n)) =
        (\<Union>a\<in>{a. (a, n) \<in> set (edges d)}. insert a (set (predecessors (nodes d ! a))))"
    by (rule s7[THEN conjunct1])
  show "\<forall>i<n. reachable (nodes d ! i) = Some True \<or> i \<in> set (predecessors (nodes d ! n))"
    by (rule s7[THEN conjunct2])
qed

lemma scan_inv_length: "scan_inv ops n p d \<Longrightarrow> length (nodes d) = Suc n"
  using scan_invD(1,2)[of ops n p d] by (metis length_map)

lemma scan_inv_skip:
  assumes "scan_inv ops n (Suc p) d" "p < n"
    and "non_commuting ops p n \<longrightarrow> p \<in> set (predecessors (nodes d ! n))"
  shows "scan_inv ops n p d"
proof -
  note S6 = scan_invD(6)[OF assms(1)]
  have "\<forall>i<n. p \<le> i \<longrightarrow> non_commuting ops i n \<longrightarrow> i \<in> set (predecessors (nodes d ! n))"
  proof (intro allI impI)
    fix i assume "i < n" "p \<le> i" "non_commuting ops i n"
    then show "i \<in> set (predecessors (nodes d ! n))"
      using S6 assms(3) by (cases "i = p") auto
  qed
  with scan_invD(1-5,7,8)[OF assms(1)] show ?thesis unfolding scan_inv_def by (intro conjI)
qed

lemma scan_inv_edge:
  assumes inv: "scan_inv ops n (Suc p) d" and p: "p < n"
    and nc: "non_commuting ops p n"
  shows "\<exists>d2. (case pred_update (add_edge d p n) n of
                 Inl e \<Rightarrow> Inl e
               | Inr d1 \<Rightarrow>
                   (case get_node d1 n of
                      Inl e \<Rightarrow> Inl e
                    | Inr mx \<Rightarrow> set_reachable False (predecessors mx) d1)) = Inr d2 \<and>
              scan_inv ops n p d2"
proof -
  from inv have len: "length (nodes d) = Suc n"
    by (rule scan_inv_length)
  note lops = scan_invD(1)[OF inv] and ops = scan_invD(2)[OF inv] and E = scan_invD(3)[OF inv]
    and S4 = scan_invD(4)[OF inv] and S5 = scan_invD(5)[OF inv] and S6 = scan_invD(6)[OF inv]
    and S7 = scan_invD(7)[OF inv] and S8 = scan_invD(8)[OF inv]
  let ?de = "add_edge d p n"
  have E': "\<forall>e\<in>set (edges ?de). fst e < snd e \<and> snd e \<le> n \<and> non_commuting ops (fst e) (snd e)"
    using E p nc by auto
  have "n < length (nodes ?de)" using len by simp
  moreover have "\<forall>e\<in>set (edges ?de). snd e = n \<longrightarrow> fst e < n" using E' by auto
  ultimately obtain P where P: "pred_update ?de n = Inr (put_node ?de n ((nodes ?de ! n)\<lparr>predecessors := P\<rparr>))"
     "set P = (\<Union>a\<in>{a. (a, n) \<in> set (edges ?de)}. insert a (set (predecessors (nodes ?de ! a))))"
    using pred_update_ok[of n ?de] by blast
  define d1 where "d1 = put_node ?de n ((nodes d ! n)\<lparr>predecessors := P\<rparr>)"
  have d1: "pred_update ?de n = Inr d1" using P(1) by (simp add: d1_def)
  have ed1: "edges d1 = edges d @ [(p, n)]" and nd1: "nodes d1 = (nodes d)[n := (nodes d ! n)\<lparr>predecessors := P\<rparr>]"
    by (simp_all add: d1_def)
  have len1: "length (nodes d1) = Suc n" using len nd1 by simp
  have mx: "get_node d1 n = Inr ((nodes d ! n)\<lparr>predecessors := P\<rparr>)"
    using len by (simp add: get_node_def nd1)
  have setP: "set P = (\<Union>a\<in>{a. (a, n) \<in> set (edges d1)}. insert a (set (predecessors (nodes d ! a))))"
    using P(2) by (simp add: ed1)
  have fw: "\<forall>e\<in>set (edges d). fst e < snd e" using E by auto
  have Plt: "\<forall>i\<in>set P. i < n"
  proof
    fix i assume "i \<in> set P"
    then obtain a where a: "(a, n) \<in> set (edges d1)" "i = a \<or> i \<in> set (predecessors (nodes d ! a))"
      unfolding setP by auto
    from a(1) E' have an: "a < n" by (force simp: ed1)
    show "i < n"
    proof (cases "i = a")
      case True with an show ?thesis by simp
    next
      case False
      with a(2) an S5 have "(i, a) \<in> (set (edges d))\<^sup>+" by auto
      from forward_trancl[OF fw this] an show ?thesis by simp
    qed
  qed
  then have "\<forall>i\<in>set P. i < length (nodes d1)" using len1 by auto
  from set_reachable_ok[OF this, of False] obtain d2 where
    d2: "set_reachable False P d1 = Inr d2" and ed2: "edges d2 = edges d1"
    and len2: "length (nodes d2) = length (nodes d1)"
    and fr: "\<forall>i<length (nodes d1). op (nodes d2 ! i) = op (nodes d1 ! i) \<and>
          predecessors (nodes d2 ! i) = predecessors (nodes d1 ! i) \<and>
          reachable (nodes d2 ! i) = (if i \<in> set P then Some False else reachable (nodes d1 ! i))"
    by blast
  have run: "(case pred_update ?de n of
                 Inl e \<Rightarrow> Inl e
               | Inr d1 \<Rightarrow>
                   (case get_node d1 n of
                      Inl e \<Rightarrow> Inl e
                    | Inr mx \<Rightarrow> set_reachable False (predecessors mx) d1)) = Inr d2"
    by (simp add: d1 mx d2)
  have pold: "\<And>j. j < n \<Longrightarrow> predecessors (nodes d2 ! j) = predecessors (nodes d ! j)"
    using fr len1 by (simp add: nd1)
  have pnew: "predecessors (nodes d2 ! n) = P"
    using fr len1 len by (simp add: nd1)
  have opsame: "map op (nodes d2) = ops"
  proof (rule nth_equalityI)
    show "length (map op (nodes d2)) = length ops" using len2 len1 lops by simp
  next
    fix i assume "i < length (map op (nodes d2))"
    then have i: "i < Suc n" using len2 len1 by simp
    then have "op (nodes d2 ! i) = op (nodes d1 ! i)" using fr len1 by simp
    also have "\<dots> = op (nodes d ! i)" using len i by (cases "i = n") (simp_all add: nd1)
    also have "\<dots> = ops ! i" using ops len i by (metis nth_map)
    finally show "map op (nodes d2) ! i = ops ! i" using i len2 len1 by simp
  qed
  have sub: "set (edges d) \<subseteq> set (edges d2)" by (auto simp: ed2 ed1)
  have oldP: "set (predecessors (nodes d ! n)) \<subseteq> set P"
    unfolding S7 setP ed1 by auto
  have "scan_inv ops n p d2"
    unfolding scan_inv_def
  proof (intro conjI)
    show "length ops = Suc n" by (rule lops)
    show "map op (nodes d2) = ops" by (rule opsame)
    show "\<forall>e\<in>set (edges d2). fst e < snd e \<and> snd e \<le> n \<and> non_commuting ops (fst e) (snd e)"
      using E' by (simp add: ed2 ed1)
    show "\<forall>j<n. \<forall>i<j. non_commuting ops i j \<longrightarrow> i \<in> set (predecessors (nodes d2 ! j))"
      using S4 pold by simp
    show "\<forall>j<n. \<forall>i\<in>set (predecessors (nodes d2 ! j)). (i, j) \<in> (set (edges d2))\<^sup>+"
      using S5 pold trancl_mono[OF _ sub] by auto
    show "\<forall>i<n. p \<le> i \<longrightarrow> non_commuting ops i n \<longrightarrow> i \<in> set (predecessors (nodes d2 ! n))"
    proof (intro allI impI)
      fix i assume i: "i < n" "p \<le> i" "non_commuting ops i n"
      show "i \<in> set (predecessors (nodes d2 ! n))"
      proof (cases "i = p")
        case True
        then show ?thesis unfolding pnew setP ed1 by auto
      next
        case False
        with i S6 have "i \<in> set (predecessors (nodes d ! n))" by auto
        with oldP show ?thesis unfolding pnew by auto
      qed
    qed
    show "set (predecessors (nodes d2 ! n)) =
        (\<Union>a\<in>{a. (a, n) \<in> set (edges d2)}. insert a (set (predecessors (nodes d2 ! a))))"
    proof -
      have "\<And>a. (a, n) \<in> set (edges d2) \<Longrightarrow> predecessors (nodes d2 ! a) = predecessors (nodes d ! a)"
        using E' pold by (force simp: ed2 ed1)
      then show ?thesis unfolding pnew setP ed2 by auto
    qed
    show "\<forall>i<n. reachable (nodes d2 ! i) = Some True \<or> i \<in> set (predecessors (nodes d2 ! n))"
    proof (intro allI impI)
      fix i assume i: "i < n"
      show "reachable (nodes d2 ! i) = Some True \<or> i \<in> set (predecessors (nodes d2 ! n))"
      proof (cases "i \<in> set P")
        case True then show ?thesis by (simp add: pnew)
      next
        case False
        with fr i len1 have "reachable (nodes d2 ! i) = reachable (nodes d1 ! i)" by simp
        also have "\<dots> = reachable (nodes d ! i)" using i by (simp add: nd1)
        finally show ?thesis using S8 i oldP False by auto
      qed
    qed
  qed
  with run show ?thesis by blast
qed

lemma scan_prev_ok:
  assumes "scan_inv ops n p d" "p \<le> n"
    and "\<forall>i<n. \<exists>r. is_commuting (ops ! i) (ops ! n) = Inr r"
  shows "\<exists>d'. scan_prev p n (ops ! n) d = Inr d' \<and> scan_inv ops n 0 d'"
  using assms(1,2)
proof (induction p arbitrary: d)
  case 0
  then show ?case by simp
next
  case (Suc p)
  then have p: "p < n" by simp
  from Suc.prems(1) have len: "length (nodes d) = Suc n" by (rule scan_inv_length)
  note ops = scan_invD(2)[OF Suc.prems(1)]
  have prev: "get_node d p = Inr (nodes d ! p)" using len p by (simp add: get_node_def)
  have opp: "op (nodes d ! p) = ops ! p" using ops len p by (metis less_Suc_eq nth_map)
  from assms(3) p obtain r where r: "is_commuting (ops ! p) (ops ! n) = Inr r" by blast
  from scan_invD(8)[OF Suc.prems(1)] p
  have S8: "reachable (nodes d ! p) = Some True \<or> p \<in> set (predecessors (nodes d ! n))"
    by blast
  show ?case
  proof (cases "reachable (nodes d ! p) = Some True \<and> \<not> r")
    case False
    have "non_commuting ops p n \<longrightarrow> p \<in> set (predecessors (nodes d ! n))"
      using False S8 r by (auto simp: non_commuting_def)
    from scan_inv_skip[OF Suc.prems(1) p this] have "scan_inv ops n p d" .
    from Suc.IH[OF this] p obtain d' where "scan_prev p n (ops ! n) d = Inr d'" "scan_inv ops n 0 d'"
      by auto
    moreover have "scan_prev (Suc p) n (ops ! n) d = scan_prev p n (ops ! n) d"
      using False prev opp r by auto
    ultimately show ?thesis by auto
  next
    case True
    then have "non_commuting ops p n" using r by (simp add: non_commuting_def)
    from scan_inv_edge[OF Suc.prems(1) p this] obtain d2 where
      d2: "(case pred_update (add_edge d p n) n of
                 Inl e \<Rightarrow> Inl e
               | Inr d1 \<Rightarrow>
                   (case get_node d1 n of
                      Inl e \<Rightarrow> Inl e
                    | Inr mx \<Rightarrow> set_reachable False (predecessors mx) d1)) = Inr d2"
      and inv2: "scan_inv ops n p d2" by blast
    from Suc.IH[OF inv2] p obtain d' where d': "scan_prev p n (ops ! n) d2 = Inr d'" "scan_inv ops n 0 d'"
      by auto
    have "scan_prev (Suc p) n (ops ! n) d = scan_prev p n (ops ! n) d2"
      using True prev opp r d2 by (auto split: sum.splits)
    with d' show ?thesis by auto
  qed
qed

subsection \<open>Agreement with the brute-force construction (claim C1)\<close>

lemma dag_invD:
  assumes "dag_inv ops d"
  shows "map op (nodes d) = ops"
    and "\<forall>e\<in>set (edges d). fst e < snd e \<and> snd e < length ops \<and> non_commuting ops (fst e) (snd e)"
    and "\<forall>j<length ops. \<forall>i<j. non_commuting ops i j \<longrightarrow> i \<in> set (predecessors (nodes d ! j))"
    and "\<forall>j<length ops. \<forall>i\<in>set (predecessors (nodes d ! j)). (i, j) \<in> (set (edges d))\<^sup>+"
proof -
  note s1 = assms[unfolded dag_inv_def]
  note s2 = s1[THEN conjunct2]
  note s3 = s2[THEN conjunct2]
  show "map op (nodes d) = ops" by (rule s1[THEN conjunct1])
  show "\<forall>e\<in>set (edges d). fst e < snd e \<and> snd e < length ops \<and> non_commuting ops (fst e) (snd e)"
    by (rule s2[THEN conjunct1])
  show "\<forall>j<length ops. \<forall>i<j. non_commuting ops i j \<longrightarrow> i \<in> set (predecessors (nodes d ! j))"
    by (rule s3[THEN conjunct1])
  show "\<forall>j<length ops. \<forall>i\<in>set (predecessors (nodes d ! j)). (i, j) \<in> (set (edges d))\<^sup>+"
    by (rule s3[THEN conjunct2])
qed

lemma non_commuting_append:
  "i < length ops \<Longrightarrow> j < length ops \<Longrightarrow>
     non_commuting (ops @ [a]) i j = non_commuting ops i j"
  by (simp add: non_commuting_def nth_append)

lemma op_new_node: "op (new_node a) = a"
  by (simp add: new_node_def)

lemma predecessors_new_node: "predecessors (new_node a) = []"
  by (simp add: new_node_def)

lemma scan_inv_start:
  assumes inv: "dag_inv ops d" and n: "n = length ops"
    and d1: "set_reachable True [0..<n] (dag_add_node d (new_node a)) = Inr d1"
  shows "scan_inv (ops @ [a]) n n d1"
proof -
  note ops = dag_invD(1)[OF inv] and E = dag_invD(2)[OF inv] and C = dag_invD(3)[OF inv]
    and S = dag_invD(4)[OF inv]
  let ?d0 = "dag_add_node d (new_node a)"
  have len: "length (nodes d) = n" using ops n by auto
  have len0: "length (nodes ?d0) = Suc n" using len by (simp add: dag_add_node_def)
  have e0: "edges ?d0 = edges d" by (simp add: dag_add_node_def)
  have "\<forall>i\<in>set [0..<n]. i < length (nodes ?d0)" using len0 by simp
  from set_reachable_ok[OF this, of True] d1
  have ed1: "edges d1 = edges d" and len1: "length (nodes d1) = Suc n"
    and fr: "\<forall>i<Suc n. op (nodes d1 ! i) = op (nodes ?d0 ! i) \<and>
          predecessors (nodes d1 ! i) = predecessors (nodes ?d0 ! i) \<and>
          reachable (nodes d1 ! i) = (if i \<in> set [0..<n] then Some True else reachable (nodes ?d0 ! i))"
    using e0 len0 by auto
  have old: "\<And>i. i < n \<Longrightarrow> nodes ?d0 ! i = nodes d ! i"
    using len by (simp add: dag_add_node_def nth_append)
  have new: "op (nodes ?d0 ! n) = a" "predecessors (nodes ?d0 ! n) = []"
    using len by (simp_all add: dag_add_node_def nth_append op_new_node predecessors_new_node)
  have pold: "\<And>j. j < n \<Longrightarrow> predecessors (nodes d1 ! j) = predecessors (nodes d ! j)"
    using fr old by simp
  have pnew: "predecessors (nodes d1 ! n) = []" using fr new by simp
  have opsame: "map op (nodes d1) = ops @ [a]"
  proof (rule nth_equalityI)
    show "length (map op (nodes d1)) = length (ops @ [a])" using len1 n by simp
  next
    fix i assume "i < length (map op (nodes d1))"
    then have i: "i < Suc n" using len1 by simp
    show "map op (nodes d1) ! i = (ops @ [a]) ! i"
    proof (cases "i = n")
      case True
      then show ?thesis using fr new len1 n by (simp add: nth_append)
    next
      case False
      with i have "i < n" by simp
      then have "op (nodes d1 ! i) = op (nodes d ! i)" using fr old by simp
      also have "\<dots> = ops ! i" using ops \<open>i < n\<close> len by (metis nth_map)
      finally show ?thesis using \<open>i < n\<close> len1 n by (simp add: nth_append)
    qed
  qed
  have noin: "{a. (a, n) \<in> set (edges d)} = {}" using E n by force
  show ?thesis
    unfolding scan_inv_def
  proof (intro conjI)
    show "length (ops @ [a]) = Suc n" using n by simp
    show "map op (nodes d1) = ops @ [a]" by (rule opsame)
    show "\<forall>e\<in>set (edges d1). fst e < snd e \<and> snd e \<le> n \<and>
            non_commuting (ops @ [a]) (fst e) (snd e)"
    proof
      fix e assume "e \<in> set (edges d1)"
      with E ed1 have e: "fst e < snd e" "snd e < length ops" "non_commuting ops (fst e) (snd e)"
        by auto
      then show "fst e < snd e \<and> snd e \<le> n \<and> non_commuting (ops @ [a]) (fst e) (snd e)"
        using n by (simp add: non_commuting_append)
    qed
    show "\<forall>j<n. \<forall>i<j. non_commuting (ops @ [a]) i j \<longrightarrow> i \<in> set (predecessors (nodes d1 ! j))"
      using C n pold by (simp add: non_commuting_append)
    show "\<forall>j<n. \<forall>i\<in>set (predecessors (nodes d1 ! j)). (i, j) \<in> (set (edges d1))\<^sup>+"
      using S n pold ed1 by simp
    show "\<forall>i<n. n \<le> i \<longrightarrow> non_commuting (ops @ [a]) i n \<longrightarrow>
            i \<in> set (predecessors (nodes d1 ! n))"
      by simp
    show "set (predecessors (nodes d1 ! n)) =
        (\<Union>a\<in>{a. (a, n) \<in> set (edges d1)}. insert a (set (predecessors (nodes d1 ! a))))"
      unfolding pnew ed1 noin by simp
    show "\<forall>i<n. reachable (nodes d1 ! i) = Some True \<or> i \<in> set (predecessors (nodes d1 ! n))"
      using fr by simp
  qed
qed

lemma scan_inv_finish:
  assumes "scan_inv ops n 0 d"
  shows "dag_inv ops d"
proof -
  note lops = scan_invD(1)[OF assms] and ops = scan_invD(2)[OF assms] and E = scan_invD(3)[OF assms]
    and S4 = scan_invD(4)[OF assms] and S5 = scan_invD(5)[OF assms] and S6 = scan_invD(6)[OF assms]
    and S7 = scan_invD(7)[OF assms]
  have sound_n: "\<forall>i\<in>set (predecessors (nodes d ! n)). (i, n) \<in> (set (edges d))\<^sup>+"
  proof
    fix i assume "i \<in> set (predecessors (nodes d ! n))"
    then obtain a where a: "(a, n) \<in> set (edges d)" "i = a \<or> i \<in> set (predecessors (nodes d ! a))"
      unfolding S7 by auto
    from a(1) E have an: "a < n" by force
    show "(i, n) \<in> (set (edges d))\<^sup>+"
    proof (cases "i = a")
      case True with a(1) show ?thesis by auto
    next
      case False
      with a(2) an S5 have "(i, a) \<in> (set (edges d))\<^sup>+" by auto
      then show ?thesis using a(1) by (rule trancl_into_trancl)
    qed
  qed
  show ?thesis
    unfolding dag_inv_def
  proof (intro conjI)
    show "map op (nodes d) = ops" by (rule ops)
    show "\<forall>e\<in>set (edges d). fst e < snd e \<and> snd e < length ops \<and> non_commuting ops (fst e) (snd e)"
      using E lops by auto
    show "\<forall>j<length ops. \<forall>i<j. non_commuting ops i j \<longrightarrow> i \<in> set (predecessors (nodes d ! j))"
    proof (intro allI impI)
      fix j i assume "j < length ops" "i < j" "non_commuting ops i j"
      then show "i \<in> set (predecessors (nodes d ! j))"
        using S4 S6 lops by (cases "j = n") auto
    qed
    show "\<forall>j<length ops. \<forall>i\<in>set (predecessors (nodes d ! j)). (i, j) \<in> (set (edges d))\<^sup>+"
    proof (intro allI impI)
      fix j assume "j < length ops"
      then show "\<forall>i\<in>set (predecessors (nodes d ! j)). (i, j) \<in> (set (edges d))\<^sup>+"
        using S5 sound_n lops by (cases "j = n") auto
    qed
  qed
qed

lemma add_node_ok:
  assumes inv: "dag_inv ops d" and tot: "commuting_total (ops @ [a])"
  shows "\<exists>d'. add_node d a = Inr d' \<and> dag_inv (ops @ [a]) d'"
proof -
  define n where "n = length ops"
  let ?d0 = "dag_add_node d (new_node a)"
  have len: "length (nodes d) = n" using dag_invD(1)[OF inv] n_def by auto
  have len0: "length (nodes ?d0) = Suc n" using len by (simp add: dag_add_node_def)
  have opn: "op (nodes ?d0 ! n) = a"
    using len by (simp add: dag_add_node_def nth_append op_new_node)
  have "\<forall>i\<in>set [0..<n]. i < length (nodes ?d0)" using len0 by simp
  from set_reachable_ok[OF this, of True] obtain d1
    where d1: "set_reachable True [0..<n] ?d0 = Inr d1" by blast
  from scan_inv_start[OF inv n_def d1] have s: "scan_inv (ops @ [a]) n n d1" .
  have "\<forall>i<n. \<exists>r. is_commuting ((ops @ [a]) ! i) ((ops @ [a]) ! n) = Inr r"
  proof (intro allI impI)
    fix i assume "i < n"
    then have "i < length (ops @ [a])" "n < length (ops @ [a])" using n_def by simp_all
    with tot show "\<exists>r. is_commuting ((ops @ [a]) ! i) ((ops @ [a]) ! n) = Inr r"
      unfolding commuting_total_def by blast
  qed
  from scan_prev_ok[OF s _ this] obtain d' where
    d': "scan_prev n n ((ops @ [a]) ! n) d1 = Inr d'" "scan_inv (ops @ [a]) n 0 d'" by auto
  have "(ops @ [a]) ! n = a" using n_def by simp
  with d'(1) have "scan_prev n n a d1 = Inr d'" by simp
  then have "update_edges ?d0 = Inr d'"
    using len0 d1 opn by (auto simp: update_edges_def get_node_def Let_def)
  with scan_inv_finish[OF d'(2)] show ?thesis by (auto simp: add_node_def)
qed

lemma commuting_total_prefix:
  "commuting_total (xs @ ys) \<Longrightarrow> commuting_total xs"
  unfolding commuting_total_def
  by (metis (no_types, lifting) length_append nth_append trans_less_add1)

lemma add_nodes_ok:
  "dag_inv ops d \<Longrightarrow> commuting_total (ops @ new) \<Longrightarrow>
     \<exists>d'. add_nodes d new = Inr d' \<and> dag_inv (ops @ new) d'"
proof (induction new arbitrary: ops d)
  case Nil
  then show ?case by simp
next
  case (Cons a new)
  from Cons.prems(2) have "commuting_total ((ops @ [a]) @ new)" by simp
  then have tot: "commuting_total (ops @ [a])" by (rule commuting_total_prefix)
  from add_node_ok[OF Cons.prems(1) tot] obtain d1 where
    d1: "add_node d a = Inr d1" "dag_inv (ops @ [a]) d1" by blast
  from Cons.IH[OF d1(2)] Cons.prems(2) obtain d' where
    "add_nodes d1 new = Inr d'" "dag_inv ((ops @ [a]) @ new) d'" by auto
  with d1(1) show ?case by auto
qed

lemma dag_inv_init: "dag_inv [] (init_dag ws obs)"
  by (simp add: dag_inv_def init_dag_def)

lemma set_brute_force_edges:
  "set (brute_force_edges ops) = {(i, j). i < j \<and> j < length ops \<and> non_commuting ops i j}"
  by (auto simp: brute_force_edges_def)

lemma dag_inv_trancl:
  assumes "dag_inv ops d"
  shows "(set (edges d))\<^sup>+ = (set (brute_force_edges ops))\<^sup>+"
proof (rule antisym)
  have "set (edges d) \<subseteq> set (brute_force_edges ops)"
    using dag_invD(2)[OF assms] by (auto simp: set_brute_force_edges)
  then show "(set (edges d))\<^sup>+ \<subseteq> (set (brute_force_edges ops))\<^sup>+"
    by (rule trancl_mono_subset)
next
  have "set (brute_force_edges ops) \<subseteq> (set (edges d))\<^sup>+"
    using dag_invD(3,4)[OF assms] by (auto simp: set_brute_force_edges)
  then have "(set (brute_force_edges ops))\<^sup>+ \<subseteq> ((set (edges d))\<^sup>+)\<^sup>+"
    by (rule trancl_mono_subset)
  then show "(set (brute_force_edges ops))\<^sup>+ \<subseteq> (set (edges d))\<^sup>+" by simp
qed

lemma ancestors_list:
  "set (filter (\<lambda>a. (a, i) \<in> (set es)\<^sup>+ \<and> a \<noteq> i) (map fst es)) = {a. (a, i) \<in> (set es)\<^sup>+ \<and> a \<noteq> i}"
proof -
  have "\<And>a. (a, i) \<in> (set es)\<^sup>+ \<Longrightarrow> a \<in> fst ` set es"
    by (metis Domain_fst trancl_domain Domain.DomainI)
  then show ?thesis by auto
qed

lemma ancestors_list_eq:
  assumes "(set es)\<^sup>+ = (set fs)\<^sup>+"
  shows "set (filter (\<lambda>a. (a, i) \<in> (set es)\<^sup>+ \<and> a \<noteq> i) (map fst es))
       = set (filter (\<lambda>a. (a, i) \<in> (set fs)\<^sup>+ \<and> a \<noteq> i) (map fst fs))"
proof -
  have "set (filter (\<lambda>a. (a, i) \<in> (set es)\<^sup>+ \<and> a \<noteq> i) (map fst es))
      = {a. (a, i) \<in> (set es)\<^sup>+ \<and> a \<noteq> i}"
    by (rule ancestors_list)
  also have "\<dots> = {a. (a, i) \<in> (set fs)\<^sup>+ \<and> a \<noteq> i}"
    by (simp only: assms)
  also have "\<dots> = set (filter (\<lambda>a. (a, i) \<in> (set fs)\<^sup>+ \<and> a \<noteq> i) (map fst fs))"
    by (rule ancestors_list[symmetric])
  finally show ?thesis .
qed

lemma sort_remdups_cong: "set xs = set ys \<Longrightarrow> sort (remdups xs) = sort (remdups (ys :: nat list))"
  by (metis sorted_list_of_set_sort_remdups)

lemma dag_inv_predecessors:
  assumes "dag_inv ops d"
  shows "dag_predecessors d j = dag_predecessors (brute_force d0 ops) j"
proof -
  have len: "length (nodes d) = length ops" using dag_invD(1)[OF assms] by auto
  have "sort (remdups (filter (\<lambda>a. (a, j) \<in> (set (edges d))\<^sup>+ \<and> a \<noteq> j) (map fst (edges d))))
      = sort (remdups (filter (\<lambda>a. (a, j) \<in> (set (brute_force_edges ops))\<^sup>+ \<and> a \<noteq> j)
           (map fst (brute_force_edges ops))))"
    by (rule sort_remdups_cong[OF ancestors_list_eq[OF dag_inv_trancl[OF assms]]])
  then show ?thesis
    by (simp add: dag_predecessors_def brute_force_def len)
qed

lemma PauliZ_PauliX_same_wire:
  "is_commuting (uncontrolled_op ''PauliZ'' [] [IntLabel 0])
                (uncontrolled_op ''PauliX'' [] [IntLabel 0]) = Inr False"
  by (simp add: commuting_eval)

lemma PauliX_PauliX_same_wire:
  "is_commuting (uncontrolled_op ''PauliX'' [] [IntLabel 0])
                (uncontrolled_op ''PauliX'' [] [IntLabel 0]) = Inr False"
  by (simp add: commuting_eval)

text \<open>
  Claim C1: for every finite sequence of supported operations inserted in order by \<open>add_node\<close>,
  the DAG built by \<open>_update_edges\<close> (scan in reverse order, pruning by the reachable flags)
  has, for every node, the same transitive-closure predecessors as the brute-force
  construction with a direct edge for every non-commuting pair \<open>i < j\<close>: \<open>predecessors(id)\<close>
  agrees between the two for every node id. Stated for every sequence on whose pairs
  \<open>is_commuting\<close> returns, which the well-formed supported operations with real parameters
  are: then the insertions all return. For an id that is no node both queries raise
  \<open>KeyError\<close>.
\<close>

theorem incremental_predecessors_brute_force:
  "(list_all well_formed ops \<and> list_all (\<lambda>a. \<not> not_supported a) ops \<and>
    list_all real_parameters ops \<longrightarrow> commuting_total ops) \<and>
   (commuting_total ops \<longrightarrow>
     (\<exists>d. add_nodes (init_dag ws obs) ops = Inr d \<and>
        (\<forall>j. dag_predecessors d j = dag_predecessors (brute_force (init_dag ws obs) ops) j)))"
proof (rule conjI)
  show "list_all well_formed ops \<and> list_all (\<lambda>a. \<not> not_supported a) ops \<and>
    list_all real_parameters ops \<longrightarrow> commuting_total ops"
  proof
    assume a: "list_all well_formed ops \<and> list_all (\<lambda>a. \<not> not_supported a) ops \<and>
      list_all real_parameters ops"
    show "commuting_total ops"
      unfolding commuting_total_def
    proof (intro allI impI)
      fix i j assume "i < length ops" "j < length ops"
      with a have "well_formed (ops ! i)" "well_formed (ops ! j)"
        "\<not> not_supported (ops ! i)" "\<not> not_supported (ops ! j)"
        "real_parameters (ops ! i)" "real_parameters (ops ! j)"
        by (simp_all add: list_all_length)
      from is_commuting_returns[OF this]
      show "\<exists>r. is_commuting (ops ! i) (ops ! j) = Inr r" by blast
    qed
  qed
  show "commuting_total ops \<longrightarrow>
     (\<exists>d. add_nodes (init_dag ws obs) ops = Inr d \<and>
        (\<forall>j. dag_predecessors d j = dag_predecessors (brute_force (init_dag ws obs) ops) j))"
  proof
    assume "commuting_total ops"
    with add_nodes_ok[OF dag_inv_init, of ops ws obs] obtain d where
      d: "add_nodes (init_dag ws obs) ops = Inr d" "dag_inv ops d" by auto
    from dag_inv_predecessors[OF d(2)] d(1)
    show "\<exists>d. add_nodes (init_dag ws obs) ops = Inr d \<and>
        (\<forall>j. dag_predecessors d j = dag_predecessors (brute_force (init_dag ws obs) ops) j)"
      by blast
  qed
qed

theorem incremental_predecessors_brute_force_witness:
  "\<exists>d. add_nodes (init_dag [IntLabel 0] [])
          [uncontrolled_op ''PauliX'' [] [IntLabel 0],
           uncontrolled_op ''PauliZ'' [] [IntLabel 0],
           uncontrolled_op ''PauliX'' [] [IntLabel 0]] = Inr d \<and>
        edges d = [(0, 1), (1, 2)] \<and>
        brute_force_edges
          [uncontrolled_op ''PauliX'' [] [IntLabel 0],
           uncontrolled_op ''PauliZ'' [] [IntLabel 0],
           uncontrolled_op ''PauliX'' [] [IntLabel 0]] = [(0, 1), (0, 2), (1, 2)] \<and>
        dag_predecessors d 2 =
          dag_predecessors
            (brute_force (init_dag [IntLabel 0] [])
               [uncontrolled_op ''PauliX'' [] [IntLabel 0],
                uncontrolled_op ''PauliZ'' [] [IntLabel 0],
                uncontrolled_op ''PauliX'' [] [IntLabel 0]]) 2"
proof -
  let ?ops = "[uncontrolled_op ''PauliX'' [] [IntLabel 0],
               uncontrolled_op ''PauliZ'' [] [IntLabel 0],
               uncontrolled_op ''PauliX'' [] [IntLabel 0]]"
  have wf: "list_all well_formed ?ops"
    by (simp add: well_formed_def barrier_names_def rotation_names_def uncontrolled_op_def)
  have sup: "list_all (\<lambda>a. \<not> not_supported a) ?ops"
    by (simp add: not_supported_def not_supported_operations_def uncontrolled_op_def)
  have re: "list_all real_parameters ?ops"
    by (simp add: real_parameters_def uncontrolled_op_def)
  note inst = incremental_predecessors_brute_force[of ?ops "[IntLabel 0]" "[]"]
  from inst[THEN conjunct1] wf sup re have tot: "commuting_total ?ops" by blast
  from inst[THEN conjunct2] tot
  obtain d where d: "add_nodes (init_dag [IntLabel 0] []) ?ops = Inr d"
    "\<forall>j. dag_predecessors d j
          = dag_predecessors (brute_force (init_dag [IntLabel 0] []) ?ops) j"
    by blast
  have "\<exists>d. add_nodes (init_dag [IntLabel 0] []) ?ops = Inr d \<and> edges d = [(0, 1), (1, 2)]"
    by (simp add: dag_eval PauliX_PauliZ_same_wire PauliZ_PauliX_same_wire
        PauliX_PauliX_same_wire)
  with d(1) have e: "edges d = [(0, 1), (1, 2)]" by auto
  have b: "brute_force_edges ?ops = [(0, 1), (0, 2), (1, 2)]"
    by (simp add: brute_force_edges_def non_commuting_def PauliX_PauliZ_same_wire
        PauliZ_PauliX_same_wire PauliX_PauliX_same_wire)
  from d e b show ?thesis by blast
qed
section \<open>The relabelling of the wires (claim C10)\<close>











end
